theory Spec2Isabelle
  imports Main "HOL-Library.AList"
begin

section \<open>Library functions used by the program\<close>

text \<open>
  The program calls a handful of functions of Go's standard library on strings and
  slash-separated paths. They are embedded here on byte strings, following their
  documented behaviour on Unix (separator \<open>/\<close>, no volume names).
\<close>

definition nl :: string where
  "nl = [CHR 0x0A]"

definition dq :: string where
  "dq = [CHR 0x22]"

text \<open>\<open>strings.Repeat\<close>.\<close>

definition strings_Repeat :: "string \<Rightarrow> nat \<Rightarrow> string" where
  "strings_Repeat s n = concat (replicate n s)"

text \<open>\<open>strings.Split(s, sep)\<close> for a one-byte separator: always at least one field.\<close>

fun strings_Split :: "string \<Rightarrow> char \<Rightarrow> string list" where
  "strings_Split [] c = [[]]"
| "strings_Split (x # xs) c =
     (if x = c then [] # strings_Split xs c
      else (case strings_Split xs c of
              [] \<Rightarrow> [[x]]
            | w # ws \<Rightarrow> (x # w) # ws))"

text \<open>\<open>strings.Join(elems, sep)\<close>.\<close>

fun strings_Join :: "string list \<Rightarrow> string \<Rightarrow> string" where
  "strings_Join [] s = []"
| "strings_Join [e] s = e"
| "strings_Join (e # e' # es) s = e @ s @ strings_Join (e' # es) s"

text \<open>\<open>strings.Trim(s, "/")\<close>: all leading and trailing slashes removed.\<close>

definition strings_Trim :: "string \<Rightarrow> char \<Rightarrow> string" where
  "strings_Trim s c = rev (dropWhile (\<lambda>x. x = c) (rev (dropWhile (\<lambda>x. x = c) s)))"

text \<open>
  \<open>filepath.Clean\<close>: empty and \<open>.\<close> elements are dropped, an inner \<open>..\<close> removes the
  element before it, \<open>..\<close> at the start of a rooted path is dropped and is kept at the
  start of a relative one; the empty result is \<open>.\<close>.
\<close>

definition clean_step :: "bool \<Rightarrow> string list \<Rightarrow> string \<Rightarrow> string list" where
  "clean_step rooted out e =
     (if e = [] \<or> e = ''.'' then out
      else if e = ''..'' then
        (if out \<noteq> [] \<and> last out \<noteq> ''..'' then butlast out
         else if rooted then out
         else out @ [''..''])
      else out @ [e])"

definition filepath_Clean :: "string \<Rightarrow> string" where
  "filepath_Clean path =
     (if path = [] then ''.''
      else
        let rooted = (hd path = CHR ''/'');
            out = foldl (clean_step rooted) [] (strings_Split path (CHR ''/''))
        in if rooted then CHR ''/'' # strings_Join out ''/''
           else if out = [] then ''.''
           else strings_Join out ''/'')"

text \<open>\<open>filepath.Join\<close>: leading empty elements are ignored, the rest is joined and cleaned.\<close>

definition filepath_Join :: "string list \<Rightarrow> string" where
  "filepath_Join elem =
     (case dropWhile (\<lambda>e. e = []) elem of
        [] \<Rightarrow> []
      | e # es \<Rightarrow> filepath_Clean (strings_Join (e # es) ''/''))"

text \<open>\<open>filepath.Dir\<close>: everything up to the last slash, cleaned.\<close>

definition filepath_Dir :: "string \<Rightarrow> string" where
  "filepath_Dir path = filepath_Clean (rev (dropWhile (\<lambda>x. x \<noteq> CHR ''/'') (rev path)))"

text \<open>\<open>filepath.Base\<close>: the last element, trailing slashes removed first.\<close>

definition filepath_Base :: "string \<Rightarrow> string" where
  "filepath_Base path =
     (if path = [] then ''.''
      else
        let p = rev (dropWhile (\<lambda>x. x = CHR ''/'') (rev path));
            b = rev (takeWhile (\<lambda>x. x \<noteq> CHR ''/'') (rev p))
        in if b = [] then ''/'' else b)"

text \<open>
  \<open>regexp.MustCompile("[\\-\\.()]").ReplaceAllString(s, "_")\<close>: each of the four
  bytes \<open>-\<close>, \<open>.\<close>, \<open>(\<close>, \<open>)\<close> becomes an underscore.
\<close>

definition ReplaceAllString :: "string \<Rightarrow> string" where
  "ReplaceAllString s =
     map (\<lambda>x. if x = CHR ''-'' \<or> x = CHR ''.'' \<or> x = CHR ''('' \<or> x = CHR '')''
               then CHR ''_'' else x) s"

section \<open>Data model\<close>

text \<open>
  \<open>DirNode\<close>: the names of the overlays at this level and the child nodes by path
  segment. The Go map of pointers is a list of (key, node) pairs with unique keys, in
  insertion order; every node is referenced from exactly one place, so the tree is a
  value.
\<close>

datatype DirNode = DirNode (Kustomizations: "string list") (Children: "(string \<times> DirNode) list")

record Edge =
  Src :: string
  Dst :: string

datatype error = Error (message: string)

datatype Level = DebugLevel | InfoLevel | WarnLevel | ErrorLevel

text \<open>The fields of \<open>types.Kustomization\<close> that the program reads.\<close>

record Patch =
  PatchPath :: string

record ReplacementField =
  ReplacementPath :: string

record Kustomization =
  Resources :: "string list"
  Components :: "string list"
  Patches :: "Patch list"
  Replacements :: "ReplacementField list"
  Transformers :: "string list"
  Configurations :: "string list"

record FileInfo =
  Name :: string
  InfoIsDir :: bool

text \<open>
  \<open>filesys.FileSystem\<close>, as far as the program uses it. \<open>Walk\<close> gives the sequence of
  calls the walk makes to its visitor: path, file information and the error of the
  visit, if any.
\<close>

record FileSystem =
  Exists :: "string \<Rightarrow> bool"
  IsDir :: "string \<Rightarrow> bool"
  ReadFile :: "string \<Rightarrow> error + string"
  Walk :: "string \<Rightarrow> (string \<times> FileInfo \<times> error option) list"

text \<open>
  What a run depends on besides the file system: the two command line values, the YAML
  reader of the kustomize library (\<open>Unmarshal\<close>, \<open>FixKustomization\<close>) and
  \<open>filepath.Rel\<close>.
\<close>

record Env =
  fs :: FileSystem
  topDir :: string
  loglevel :: string
  Unmarshal :: "string \<Rightarrow> error + Kustomization"
  FixKustomization :: "Kustomization \<Rightarrow> Kustomization"
  Rel :: "string \<Rightarrow> string \<Rightarrow> error + string"

text \<open>
  The global variables \<open>rootDir\<close> and \<open>edges\<close>, and the entries handed to the global
  logger, each with its severity.
\<close>

record state =
  rootDir :: DirNode
  edges :: "Edge list"
  logs :: "(Level \<times> string) list"

definition init_state :: state where
  "init_state = \<lparr>rootDir = DirNode [] [], edges = [], logs = []\<rparr>"

definition Debugf :: "string \<Rightarrow> state \<Rightarrow> state" where
  "Debugf msg st = st\<lparr>logs := logs st @ [(DebugLevel, msg)]\<rparr>"

definition Warnf :: "string \<Rightarrow> state \<Rightarrow> state" where
  "Warnf msg st = st\<lparr>logs := logs st @ [(WarnLevel, msg)]\<rparr>"

section \<open>Membership tests\<close>

text \<open>\<open>util.Contains\<close>: a linear scan with \<open>reflect.DeepEqual\<close>, structural equality.\<close>

fun Contains :: "'a list \<Rightarrow> 'a \<Rightarrow> bool" where
  "Contains [] elem = False"
| "Contains (item # rest) elem = (if item = elem then True else Contains rest elem)"

text \<open>\<open>slices.Contains\<close>.\<close>

fun slices_Contains :: "'a list \<Rightarrow> 'a \<Rightarrow> bool" where
  "slices_Contains [] v = False"
| "slices_Contains (x # xs) v = (x = v \<or> slices_Contains xs v)"

section \<open>The directory tree\<close>

text \<open>
  The loop of \<open>appendToDirTree\<close> walks down from the root, creating each missing child,
  and the basename is appended at the node it ends in unless it is there already.
\<close>

fun registerAt :: "string list \<Rightarrow> string \<Rightarrow> DirNode \<Rightarrow> DirNode" where
  "registerAt [] basename d =
     (if \<not> slices_Contains (Kustomizations d) basename
      then DirNode (Kustomizations d @ [basename]) (Children d)
      else d)"
| "registerAt (parentDir # rest) basename d =
     (case map_of (Children d) parentDir of
        None \<Rightarrow>
          DirNode (Kustomizations d)
            (Children d @ [(parentDir, registerAt rest basename (DirNode [] []))])
      | Some c \<Rightarrow>
          DirNode (Kustomizations d)
            (AList.update parentDir (registerAt rest basename c) (Children d)))"

definition parentDirs :: "string \<Rightarrow> string list" where
  "parentDirs dir = strings_Split (filepath_Dir (strings_Trim dir (CHR ''/''))) (CHR ''/'')"

definition appendToDirTree :: "string \<Rightarrow> DirNode \<Rightarrow> error option \<times> DirNode" where
  "appendToDirTree dir root = (None, registerAt (parentDirs dir) (filepath_Base dir) root)"

text \<open>Descending from a node by a list of segments.\<close>

fun descend :: "string list \<Rightarrow> DirNode \<Rightarrow> DirNode option" where
  "descend [] d = Some d"
| "descend (s # ss) d =
     (case map_of (Children d) s of None \<Rightarrow> None | Some c \<Rightarrow> descend ss c)"

section \<open>Reading one overlay\<close>

definition readKustomizationFile :: "Env \<Rightarrow> string \<Rightarrow> error + Kustomization" where
  "readKustomizationFile env dir =
     (case ReadFile (fs env) (filepath_Join [dir, ''kustomization.yaml'']) of
        Inl err \<Rightarrow> Inl err
      | Inr data \<Rightarrow>
          (case Unmarshal env data of
             Inl err \<Rightarrow> Inl err
           | Inr k \<Rightarrow> Inr (FixKustomization env k)))"

text \<open>
  The loops of \<open>readDir\<close> over the six lists. The first two collect \<open>nextDirs\<close>; a
  missing resource is logged at debug severity, a missing component at warning
  severity. The other four only check that the path exists.
\<close>

definition resourceStep :: "Env \<Rightarrow> string \<Rightarrow> string \<Rightarrow> string list \<times> state \<Rightarrow> string list \<times> state" where
  "resourceStep env dir v acc =
     (let nextDirs = fst acc;
          st = Debugf (''- (resource) '' @ v) (snd acc);
          nextPath = filepath_Join [dir, v]
      in if \<not> Exists (fs env) nextPath
         then (nextDirs, Debugf (''/* '' @ nextPath @ '' is not found */'') st)
         else if IsDir (fs env) nextPath then (nextDirs @ [nextPath], st)
         else (nextDirs, st))"

definition componentStep :: "Env \<Rightarrow> string \<Rightarrow> string \<Rightarrow> string list \<times> state \<Rightarrow> string list \<times> state" where
  "componentStep env dir v acc =
     (let nextDirs = fst acc;
          st = Debugf (''- (component) '' @ v) (snd acc);
          nextPath = filepath_Join [dir, v]
      in if \<not> Exists (fs env) nextPath
         then (nextDirs, Warnf (nextPath @ '' is not found'') st)
         else if IsDir (fs env) nextPath then (nextDirs @ [nextPath], st)
         else (nextDirs, st))"

definition checkStep :: "Env \<Rightarrow> string \<Rightarrow> string \<Rightarrow> string \<Rightarrow> state \<Rightarrow> state" where
  "checkStep env dir what v st0 =
     (let st = Debugf (''- ('' @ what @ '') '' @ v) st0;
          nextPath = filepath_Join [dir, v]
      in if \<not> Exists (fs env) nextPath
         then Warnf (nextPath @ '' is not found'') st
         else st)"

definition collectNextDirs :: "Env \<Rightarrow> string \<Rightarrow> Kustomization \<Rightarrow> state \<Rightarrow> string list \<times> state" where
  "collectNextDirs env dir k st =
     fold (componentStep env dir) (Components k)
       (fold (resourceStep env dir) (Resources k) ([], st))"

definition checkFiles :: "Env \<Rightarrow> string \<Rightarrow> Kustomization \<Rightarrow> state \<Rightarrow> state" where
  "checkFiles env dir k st =
     fold (checkStep env dir ''configuration'') (Configurations k)
       (fold (checkStep env dir ''transformer'') (Transformers k)
         (fold (checkStep env dir ''replacement'') (map ReplacementPath (Replacements k))
           (fold (checkStep env dir ''patch'') (map PatchPath (Patches k)) st)))"

text \<open>
  The loop that records the edges: it returns at the first child whose relative path
  cannot be computed, and appends an edge only if \<open>util.Contains\<close> does not find it.
\<close>

definition recordEdge :: "string \<Rightarrow> string \<Rightarrow> state \<Rightarrow> state" where
  "recordEdge rel nextDir st =
     (let st1 = Debugf (''[edge] '' @ dq @ rel @ dq @ '' -> '' @ dq @ nextDir @ dq) st;
          newEdge = \<lparr>Src = rel, Dst = nextDir\<rparr>
      in if \<not> Contains (edges st1) newEdge
         then st1\<lparr>edges := edges st1 @ [newEdge]\<rparr>
         else st1)"

fun addEdges :: "Env \<Rightarrow> string \<Rightarrow> string list \<Rightarrow> state \<Rightarrow> error option \<times> state" where
  "addEdges env rel [] st = (None, st)"
| "addEdges env rel (nextDir # rest) st =
     (case Rel env (topDir env) nextDir of
        Inl err \<Rightarrow> (Some err, st)
      | Inr nd \<Rightarrow> addEdges env rel rest (recordEdge rel nd st))"

text \<open>
  The last loop of \<open>readDir\<close> calls \<open>readDir\<close> on every child and drops what the call
  returns. \<open>None\<close> means that a call did not return.
\<close>

fun recurseInto :: "(string \<Rightarrow> state \<Rightarrow> (error option \<times> state) option) \<Rightarrow> string list \<Rightarrow> state \<Rightarrow> state option" where
  "recurseInto f [] st = Some st"
| "recurseInto f (nextDir # rest) st =
     (case f nextDir st of
        None \<Rightarrow> None
      | Some r \<Rightarrow> recurseInto f rest (snd r))"

text \<open>
  \<open>readDir\<close>, with the depth of recursion that is left as its first argument: the
  result is \<open>None\<close> when that depth is exceeded, and otherwise the returned error (if
  any) with the state the call leaves.
\<close>

primrec readDir :: "nat \<Rightarrow> Env \<Rightarrow> string \<Rightarrow> state \<Rightarrow> (error option \<times> state) option" where
  "readDir 0 env dir st = None"
| "readDir (Suc n) env dir st =
     (let st0 = Debugf (''----- '' @ dir @ '' -----'') st in
      case readKustomizationFile env dir of
        Inl err \<Rightarrow> Some (Some err, st0)
      | Inr kustomization \<Rightarrow>
          (case Rel env (topDir env) dir of
             Inl err \<Rightarrow> Some (Some err, st0)
           | Inr rel \<Rightarrow>
               (let a = appendToDirTree rel (rootDir st0);
                    st1 = st0\<lparr>rootDir := snd a\<rparr>
                in case fst a of
                     Some err \<Rightarrow> Some (Some err, st1)
                   | None \<Rightarrow>
                       (let c = collectNextDirs env dir kustomization st1;
                            nextDirs = fst c;
                            st2 = checkFiles env dir kustomization (snd c);
                            e = addEdges env rel nextDirs st2
                        in case fst e of
                             Some err \<Rightarrow> Some (Some err, snd e)
                           | None \<Rightarrow>
                               (case recurseInto (readDir n env) nextDirs (snd e) of
                                  None \<Rightarrow> None
                                | Some st4 \<Rightarrow> Some (None, st4))))))"

section \<open>Rendering\<close>

definition indentOf :: "nat \<Rightarrow> string" where
  "indentOf indentLevel = strings_Repeat '' '' (2 * indentLevel)"

definition nodeLine :: "nat \<Rightarrow> string \<Rightarrow> string \<Rightarrow> string" where
  "nodeLine indentLevel dirName kustomization =
     indentOf indentLevel @ dq @ filepath_Join [dirName, kustomization] @ dq
       @ ''  [label='' @ dq @ kustomization @ dq @ '']'' @ nl"

definition displayName :: "string \<Rightarrow> string" where
  "displayName childName = (if childName = ''.'' then ''(root)'' else childName)"

definition clusterHead :: "nat \<Rightarrow> string \<Rightarrow> string" where
  "clusterHead indentLevel childName =
     nl
     @ indentOf indentLevel @ ''subgraph cluster_'' @ ReplaceAllString childName @ '' {'' @ nl
     @ indentOf (indentLevel + 1) @ ''label = '' @ dq @ childName @ dq @ nl
     @ indentOf (indentLevel + 1) @ ''fillcolor=lightgray;'' @ nl
     @ indentOf (indentLevel + 1) @ ''style=filled;'' @ nl
     @ indentOf (indentLevel + 1) @ ''color=white;'' @ nl
     @ indentOf (indentLevel + 1) @ ''penwidth=3;'' @ nl
     @ indentOf (indentLevel + 1) @ ''node [style=filled,color=white];'' @ nl"

text \<open>
  \<open>printGraphNodes\<close> returns what the Go function prints. Go leaves the order in which
  a map is ranged over open; the children are taken in insertion order here.
\<close>

fun printGraphNodes :: "DirNode \<Rightarrow> string \<Rightarrow> nat \<Rightarrow> string"
  and printChildren :: "(string \<times> DirNode) list \<Rightarrow> string \<Rightarrow> nat \<Rightarrow> string" where
  "printGraphNodes (DirNode ks cs) dirName indentLevel =
     concat (map (nodeLine indentLevel dirName) ks) @ printChildren cs dirName indentLevel"
| "printChildren [] dirName indentLevel = []"
| "printChildren (c # rest) dirName indentLevel =
     clusterHead indentLevel (displayName (fst c))
     @ printGraphNodes (snd c) (filepath_Join [dirName, displayName (fst c)]) (indentLevel + 1)
     @ indentOf indentLevel @ ''}'' @ nl
     @ printChildren rest dirName indentLevel"

definition edgeLine :: "nat \<Rightarrow> Edge \<Rightarrow> string" where
  "edgeLine indentLevel edge =
     indentOf indentLevel @ dq @ Src edge @ dq @ '' -> '' @ dq @ Dst edge @ dq @ nl"

definition printGraphEdges :: "Edge list \<Rightarrow> nat \<Rightarrow> string" where
  "printGraphEdges es indentLevel = concat (map (edgeLine indentLevel) es)"

definition render :: "state \<Rightarrow> string" where
  "render st =
     ''digraph G {'' @ nl
     @ printGraphNodes (rootDir st) [] 1
     @ printGraphEdges (edges st) 1
     @ ''}'' @ nl"

section \<open>The program\<close>

text \<open>The visitor of \<open>findKustomizationDirs\<close>: an error of the walk ends the walk.\<close>

fun visitAll :: "(string \<times> FileInfo \<times> error option) list \<Rightarrow> string list \<Rightarrow> string list" where
  "visitAll [] kustomizationDirs = kustomizationDirs"
| "visitAll ((path, info, err) # rest) kustomizationDirs =
     (case err of
        Some e \<Rightarrow> kustomizationDirs
      | None \<Rightarrow>
          visitAll rest
            (if \<not> InfoIsDir info \<and> Name info = ''kustomization.yaml''
             then kustomizationDirs @ [filepath_Dir path]
             else kustomizationDirs))"

definition findKustomizationDirs :: "FileSystem \<Rightarrow> string \<Rightarrow> string list" where
  "findKustomizationDirs f baseDir = visitAll (Walk f baseDir) []"

text \<open>The loop of \<open>main\<close> over the overlays found: the first error ends it.\<close>

fun readRoots :: "nat \<Rightarrow> Env \<Rightarrow> string list \<Rightarrow> state \<Rightarrow> (error option \<times> state) option" where
  "readRoots n env [] st = Some (None, st)"
| "readRoots n env (dir # rest) st =
     (case readDir n env dir st of
        None \<Rightarrow> None
      | Some r \<Rightarrow>
          (case fst r of
             Some err \<Rightarrow> Some (Some err, snd r)
           | None \<Rightarrow> readRoots n env rest (snd r)))"

record outcome =
  exitCode :: int
  stdout :: string
  final :: state

text \<open>
  \<open>main\<close>: exit status 1 and the error on standard output when a root fails, the graph
  and exit status 0 otherwise. The logger passes on the entries at or above its level:
  debug for \<open>--loglevel=debug\<close>, info otherwise.
\<close>

definition main :: "nat \<Rightarrow> Env \<Rightarrow> outcome option" where
  "main n env =
     (case readRoots n env (findKustomizationDirs (fs env) (topDir env)) init_state of
        None \<Rightarrow> None
      | Some r \<Rightarrow>
          (case fst r of
             Some err \<Rightarrow> Some \<lparr>exitCode = 1, stdout = message err @ nl, final = snd r\<rparr>
           | None \<Rightarrow> Some \<lparr>exitCode = 0, stdout = render (snd r), final = snd r\<rparr>))"

definition surfaced :: "string \<Rightarrow> Level \<times> string \<Rightarrow> bool" where
  "surfaced lvl entry = (lvl = ''debug'' \<or> fst entry \<noteq> DebugLevel)"

definition emitted :: "Env \<Rightarrow> state \<Rightarrow> (Level \<times> string) list" where
  "emitted env st = filter (surfaced (loglevel env)) (logs st)"

section \<open>Notions used in the statements\<close>

text \<open>
  A plain path element, and the element lists of the relative paths that
  \<open>filepath.Clean\<close> leaves alone: \<open>..\<close> elements first, plain names after them.
\<close>

definition plainName :: "string \<Rightarrow> bool" where
  "plainName e = (e \<noteq> [] \<and> CHR ''/'' \<notin> set e \<and> e \<noteq> ''.'' \<and> e \<noteq> ''..'')"

fun relElems :: "string list \<Rightarrow> bool" where
  "relElems [] = True"
| "relElems (e # es) = (if e = ''..'' then relElems es else list_all plainName (e # es))"

text \<open>No node of the tree lists a basename twice.\<close>

fun noDupNames :: "DirNode \<Rightarrow> bool"
  and noDupChildren :: "(string \<times> DirNode) list \<Rightarrow> bool" where
  "noDupNames (DirNode ks cs) = (distinct ks \<and> noDupChildren cs)"
| "noDupChildren [] = True"
| "noDupChildren (c # cs) = (noDupNames (snd c) \<and> noDupChildren cs)"

text \<open>The second state differs from the first only by further log entries.\<close>

definition onlyLogs :: "state \<Rightarrow> state \<Rightarrow> bool" where
  "onlyLogs s t = (rootDir t = rootDir s \<and> edges t = edges s \<and> (\<exists>l. logs t = logs s @ l))"

text \<open>
  The children \<open>readDir\<close> collects for an overlay, and the state it has reached when
  it starts to record the edges.
\<close>

definition nextDirsOf :: "Env \<Rightarrow> string \<Rightarrow> Kustomization \<Rightarrow> string list" where
  "nextDirsOf env dir k =
     filter (\<lambda>p. Exists (fs env) p \<and> IsDir (fs env) p)
       (map (\<lambda>v. filepath_Join [dir, v]) (Resources k @ Components k))"

definition enter :: "string \<Rightarrow> string \<Rightarrow> state \<Rightarrow> state" where
  "enter dir rel st =
     (Debugf (''----- '' @ dir @ '' -----'') st)\<lparr>rootDir := snd (appendToDirTree rel (rootDir st))\<rparr>"

definition afterChecks :: "Env \<Rightarrow> string \<Rightarrow> Kustomization \<Rightarrow> string \<Rightarrow> state \<Rightarrow> state" where
  "afterChecks env dir k rel st =
     checkFiles env dir k (snd (collectNextDirs env dir k (enter dir rel st)))"

section \<open>Example inputs\<close>

text \<open>
  A file system given by the lists of its directories and files, with the parsed
  configuration of each \<open>kustomization.yaml\<close>; the top directory is \<open>.\<close>, for which
  \<open>filepath.Rel\<close> returns the cleaned target when the target is relative.
\<close>

definition relFromDot :: "string \<Rightarrow> string \<Rightarrow> error + string" where
  "relFromDot basepath targpath =
     (if basepath = ''.'' \<and> (targpath = [] \<or> hd targpath \<noteq> CHR ''/'')
      then Inr (filepath_Clean targpath)
      else Inl (Error (''Rel: cannot make '' @ targpath @ '' relative to '' @ basepath)))"

definition tableFs :: "string list \<Rightarrow> string list \<Rightarrow> FileSystem" where
  "tableFs ds fls =
     \<lparr>Exists = (\<lambda>p. p \<in> set ds \<or> p \<in> set fls),
      IsDir = (\<lambda>p. p \<in> set ds),
      ReadFile = (\<lambda>p. if p \<in> set fls then Inr p
                       else Inl (Error (''open '' @ p @ '': no such file or directory''))),
      Walk = (\<lambda>root. map (\<lambda>p. (p, \<lparr>Name = filepath_Base p, InfoIsDir = True\<rparr>, None)) ds
                      @ map (\<lambda>p. (p, \<lparr>Name = filepath_Base p, InfoIsDir = False\<rparr>, None)) fls)\<rparr>"

definition tableEnv :: "string list \<Rightarrow> string list \<Rightarrow> (string \<times> Kustomization) list \<Rightarrow> Env" where
  "tableEnv ds fls cfgs =
     \<lparr>fs = tableFs ds fls, topDir = ''.'', loglevel = ''info'',
      Unmarshal = (\<lambda>data. case map_of cfgs data of
                            Some k \<Rightarrow> Inr k
                          | None \<Rightarrow> Inl (Error ''yaml: unmarshal errors'')),
      FixKustomization = (\<lambda>k. k),
      Rel = relFromDot\<rparr>"

definition refs :: "string list \<Rightarrow> string list \<Rightarrow> Kustomization" where
  "refs rs cs = \<lparr>Resources = rs, Components = cs, Patches = [], Replacements = [],
                 Transformers = [], Configurations = []\<rparr>"

text \<open>
  Three overlays under the top directory: \<open>overlay\<close> lists \<open>../base\<close> twice, a plain
  file, a missing resource, the component \<open>../comp\<close>, a missing component and a
  missing patch; \<open>comp\<close> lists \<open>../base\<close> too.
\<close>

definition demoEnv :: Env where
  "demoEnv = tableEnv
     [''base'', ''comp'', ''overlay'']
     [''base/kustomization.yaml'', ''comp/kustomization.yaml'', ''overlay/kustomization.yaml'',
      ''overlay/deployment.yaml'']
     [(''base/kustomization.yaml'', refs [] []),
      (''comp/kustomization.yaml'', refs [''../base''] []),
      (''overlay/kustomization.yaml'',
         \<lparr>Resources = [''../base'', ''../base'', ''deployment.yaml'', ''missing.yaml''],
          Components = [''../comp'', ''../gone''],
          Patches = [\<lparr>PatchPath = ''nopatch.yaml''\<rparr>], Replacements = [],
          Transformers = [], Configurations = []\<rparr>)]"

text \<open>
  An overlay whose only resource is a directory without a \<open>kustomization.yaml\<close>.
\<close>

definition brokenChildEnv :: Env where
  "brokenChildEnv = tableEnv
     [''nocfg'', ''overlay'']
     [''overlay/kustomization.yaml'']
     [(''overlay/kustomization.yaml'', refs [''../nocfg''] [])]"


text \<open>
  A configuration, and a run, with the patches, replacements, transformers and
  configurations lists of every overlay emptied; two states with the same tree and the
  same edges.
\<close>

definition withoutFileLists :: "Kustomization \<Rightarrow> Kustomization" where
  "withoutFileLists k = k\<lparr>Patches := [], Replacements := [], Transformers := [], Configurations := []\<rparr>"

definition withoutFileChecks :: "Env \<Rightarrow> Env" where
  "withoutFileChecks env = env\<lparr>FixKustomization := (\<lambda>k. withoutFileLists (FixKustomization env k))\<rparr>"

definition sameGraph :: "state \<Rightarrow> state \<Rightarrow> bool" where
  "sameGraph s t = (rootDir s = rootDir t \<and> edges s = edges t)"

text \<open>
  An edge that comes from a reference: its source is the identifier of an overlay whose
  configuration was read, its destination the identifier of a resource or component
  entry of that overlay which names an existing directory.
\<close>

definition fromRef :: "Env \<Rightarrow> Edge \<Rightarrow> bool" where
  "fromRef env e =
     (\<exists>d k v. readKustomizationFile env d = Inr k
        \<and> v \<in> set (Resources k @ Components k)
        \<and> Exists (fs env) (filepath_Join [d, v]) \<and> IsDir (fs env) (filepath_Join [d, v])
        \<and> Rel env (topDir env) d = Inr (Src e)
        \<and> Rel env (topDir env) (filepath_Join [d, v]) = Inr (Dst e))"

text \<open>The basename \<open>b\<close> is listed by the node at the segments \<open>ps\<close>.\<close>

definition listedAt :: "DirNode \<Rightarrow> string list \<Rightarrow> string \<Rightarrow> bool" where
  "listedAt root ps b = (case descend ps root of None \<Rightarrow> False | Some m \<Rightarrow> b \<in> set (Kustomizations m))"

text \<open>The log entries at warning severity.\<close>

definition warnings :: "state \<Rightarrow> (Level \<times> string) list" where
  "warnings st = filter (\<lambda>e. fst e = WarnLevel) (logs st)"

text \<open>An overlay whose only resource does not exist.\<close>

definition missingResourceEnv :: Env where
  "missingResourceEnv = tableEnv
     [''overlay'']
     [''overlay/kustomization.yaml'']
     [(''overlay/kustomization.yaml'', refs [''missing.yaml''] [])]"

section \<open>Paths\<close>

lemma slices_Contains_set: "slices_Contains xs v = (v \<in> set xs)"
  by (induction xs) auto

lemma Contains_set: "Contains xs v = (v \<in> set xs)"
  by (induction xs) auto

lemma Split_ne: "strings_Split s c \<noteq> []"
  by (induction s) (auto split: list.splits)

lemma Split_no_sep: "c \<notin> set s \<Longrightarrow> strings_Split s c = [s]"
  by (induction s) auto

lemma Split_append_sep:
  "c \<notin> set s \<Longrightarrow> strings_Split (s @ c # t) c = s # strings_Split t c"
  by (induction s) auto

lemma Split_Join:
  "es \<noteq> [] \<Longrightarrow> \<forall>e\<in>set es. c \<notin> set e \<Longrightarrow> strings_Split (strings_Join es [c]) c = es"
proof (induction es "[c]" rule: strings_Join.induct)
  case 1 then show ?case by simp
next
  case (2 e) then show ?case by (simp add: Split_no_sep)
next
  case (3 e e' es)
  then show ?case by (simp add: Split_append_sep)
qed

lemma Split_Join_sep:
  "\<forall>e\<in>set es. c \<notin> set e \<Longrightarrow> es \<noteq> [] \<Longrightarrow> strings_Split (strings_Join es [c] @ [c]) c = es @ [[]]"
proof (induction es "[c]" rule: strings_Join.induct)
  case 1 then show ?case by simp
next
  case (2 e) then show ?case using Split_append_sep[of c e "[]"] by simp
next
  case (3 e e' es)
  then show ?case by (simp add: Split_append_sep)
qed

lemma Join_snoc: "es \<noteq> [] \<Longrightarrow> strings_Join (es @ [b]) s = strings_Join es s @ s @ b"
  by (induction es s rule: strings_Join.induct) auto

lemma relElems_plain_tail: "relElems (out @ e # es) \<Longrightarrow> e \<noteq> ''..'' \<Longrightarrow> list_all plainName (e # es)"
  by (induction out) (auto split: if_splits)

lemma relElems_dotdot_front: "relElems (out @ ''..'' # es) \<Longrightarrow> out = replicate (length out) ''..''"
  by (induction out) (auto split: if_splits simp: plainName_def)

lemma relElems_elem: "relElems es \<Longrightarrow> e \<in> set es \<Longrightarrow> e \<noteq> [] \<and> CHR ''/'' \<notin> set e \<and> e \<noteq> ''.''"
  by (induction es) (auto split: if_splits simp: plainName_def list_all_iff)

lemma foldl_clean_rel:
  "relElems (out @ es) \<Longrightarrow> foldl (clean_step False) out es = out @ es"
proof (induction es arbitrary: out)
  case Nil then show ?case by simp
next
  case (Cons e es)
  have e: "e \<noteq> [] \<and> e \<noteq> ''.''" using relElems_elem[OF Cons.prems, of e] by simp
  have step: "clean_step False out e = out @ [e]"
  proof (cases "e = ''..''")
    case True
    then have "out = replicate (length out) ''..''" using Cons.prems relElems_dotdot_front by blast
    then have "out = [] \<or> last out = ''..''"
      by (metis last_replicate length_0_conv)
    then show ?thesis using True by (auto simp: clean_step_def)
  next
    case False then show ?thesis using e by (simp add: clean_step_def)
  qed
  show ?case using Cons.IH[of "out @ [e]"] Cons.prems step by simp
qed

lemma Join_hd: "es \<noteq> [] \<Longrightarrow> hd es \<noteq> [] \<Longrightarrow> strings_Join es s \<noteq> [] \<and> hd (strings_Join es s) = hd (hd es)"
  by (induction es s rule: strings_Join.induct) auto


lemma Clean_rel_slash:
  assumes "relElems es" "es \<noteq> []"
  shows "filepath_Clean (strings_Join es ''/'' @ ''/'') = strings_Join es ''/''"
proof -
  have el: "\<forall>e\<in>set es. CHR ''/'' \<notin> set e" using relElems_elem[OF assms(1)] by blast
  have h: "hd es \<noteq> [] \<and> CHR ''/'' \<notin> set (hd es)"
    using relElems_elem[OF assms(1), of "hd es"] assms(2) by simp
  then have ne: "strings_Join es ''/'' \<noteq> []" and hd: "hd (strings_Join es ''/'') = hd (hd es)"
    using Join_hd[of es "''/''"] assms(2) by auto
  have nr: "hd (strings_Join es ''/'' @ ''/'') \<noteq> CHR ''/''"
    using hd h ne by (metis hd_append2 list.set_sel(1))
  have sp: "strings_Split (strings_Join es ''/'' @ ''/'') (CHR ''/'') = es @ [[]]"
    using Split_Join_sep[OF el assms(2)] by simp
  have fo: "foldl (clean_step False) [] (es @ [[]]) = es"
    using foldl_clean_rel[of "[]" es] assms(1) by (simp add: clean_step_def)
  show ?thesis
    using nr sp fo assms(2) by (simp add: filepath_Clean_def)
qed

lemma relElems_butlast: "relElems (segs @ [b]) \<Longrightarrow> relElems segs"
  by (induction segs) (auto split: if_splits)

lemma Dir_Join:
  assumes "relElems (segs @ [b])"
  shows "filepath_Dir (strings_Join (segs @ [b]) ''/'') = (if segs = [] then ''.'' else strings_Join segs ''/'')"
proof (cases "segs = []")
  case True
  have "CHR ''/'' \<notin> set b" using relElems_elem[OF assms, of b] by simp
  then have "dropWhile (\<lambda>x. x \<noteq> CHR ''/'') (rev b) = []" by auto
  then show ?thesis using True by (simp add: filepath_Dir_def filepath_Clean_def)
next
  case False
  have nb: "CHR ''/'' \<notin> set b" using relElems_elem[OF assms, of b] by simp
  have "dropWhile (\<lambda>x. x \<noteq> CHR ''/'') (rev b @ CHR ''/'' # rev (strings_Join segs ''/''))
        = CHR ''/'' # rev (strings_Join segs ''/'')"
    using nb by (simp add: dropWhile_append3 dropWhile_append)
  then have "rev (dropWhile (\<lambda>x. x \<noteq> CHR ''/'') (rev (strings_Join (segs @ [b]) ''/'')))
        = strings_Join segs ''/'' @ ''/''"
    using False by (simp add: Join_snoc)
  then show ?thesis
    using False Clean_rel_slash[OF relElems_butlast[OF assms] False] by (simp add: filepath_Dir_def)
qed

lemma Base_Join:
  assumes "relElems (segs @ [b])"
  shows "filepath_Base (strings_Join (segs @ [b]) ''/'') = b"
proof -
  have nb: "CHR ''/'' \<notin> set b" and ne: "b \<noteq> []" using relElems_elem[OF assms, of b] by simp_all
  obtain pre where p: "strings_Join (segs @ [b]) ''/'' = pre @ b" and pre: "pre = [] \<or> last pre = CHR ''/''"
    by (cases "segs = []") (auto simp: Join_snoc)
  have l: "hd (rev b) \<noteq> CHR ''/''" using nb ne by (metis hd_rev last_in_set)
  have 1: "dropWhile (\<lambda>x. x = CHR ''/'') (rev b @ rev pre) = rev b @ rev pre"
    using l ne by (cases "rev b") auto
  have 2: "takeWhile (\<lambda>x. x \<noteq> CHR ''/'') (rev b @ rev pre) = rev b"
    using nb pre by (cases "rev pre") (auto simp: takeWhile_append last_rev hd_rev)
  show ?thesis using p ne 1 2 by (simp add: filepath_Base_def)
qed

lemma Trim_Join:
  assumes "relElems (segs @ [b])"
  shows "strings_Trim (strings_Join (segs @ [b]) ''/'') (CHR ''/'') = strings_Join (segs @ [b]) ''/''"
proof -
  let ?p = "strings_Join (segs @ [b]) ''/''"
  have nb: "CHR ''/'' \<notin> set b" and ne: "b \<noteq> []" using relElems_elem[OF assms, of b] by simp_all
  have h: "hd (segs @ [b]) \<noteq> [] \<and> CHR ''/'' \<notin> set (hd (segs @ [b]))"
    using relElems_elem[OF assms, of "hd (segs @ [b])"] by (cases segs) auto
  then have pne: "?p \<noteq> []" and hd: "hd ?p = hd (hd (segs @ [b]))"
    using Join_hd[of "segs @ [b]" "''/''"] by auto
  have f: "hd ?p \<noteq> CHR ''/''" using hd h by (metis list.set_sel(1))
  obtain pre where p: "?p = pre @ b" by (cases "segs = []") (auto simp: Join_snoc)
  have l: "last ?p \<noteq> CHR ''/''" using p ne nb by (metis last_appendR last_in_set)
  have 1: "dropWhile (\<lambda>x. x = CHR ''/'') ?p = ?p" using f pne by (cases ?p) auto
  have 2: "dropWhile (\<lambda>x. x = CHR ''/'') (rev ?p) = rev ?p"
    using l pne by (cases "rev ?p") (auto simp: hd_rev[symmetric])
  show ?thesis unfolding strings_Trim_def 1 2 by simp
qed

lemma parentDirs_Join:
  assumes "relElems (segs @ [b])"
  shows "parentDirs (strings_Join (segs @ [b]) ''/'') = (if segs = [] then [''.''] else segs)"
proof -
  have el: "\<forall>e\<in>set segs. CHR ''/'' \<notin> set e"
    using relElems_elem[OF relElems_butlast[OF assms]] by blast
  show ?thesis
    unfolding parentDirs_def Trim_Join[OF assms] Dir_Join[OF assms]
    using Split_Join[of segs "CHR ''/''"] el by simp
qed

lemma parentDirs_dot: "parentDirs ''.'' = [''.''] \<and> filepath_Base ''.'' = ''.''"
  by (simp add: parentDirs_def strings_Trim_def filepath_Dir_def filepath_Clean_def filepath_Base_def)




section \<open>Registration in the tree\<close>

lemma map_of_snoc_new:
  "map_of cs k = None \<Longrightarrow> map_of (cs @ [(k, v)]) k' = (if k' = k then Some v else map_of cs k')"
  by (induction cs) auto

lemma descend_registerAt:
  "\<exists>n. descend ps (registerAt ps b d) = Some n \<and> b \<in> set (Kustomizations n)"
proof (induction ps arbitrary: d)
  case Nil
  then show ?case by (simp add: slices_Contains_set)
next
  case (Cons p ps)
  show ?case
  proof (cases "map_of (Children d) p")
    case None
    then show ?thesis using Cons.IH[of "DirNode [] []"] by (simp add: map_of_snoc_new del: map_of_append)
  next
    case (Some c)
    then show ?thesis using Cons.IH[of c] by (simp add: update_conv')
  qed
qed

lemma noDupChildren_append:
  "noDupChildren (cs @ ds) = (noDupChildren cs \<and> noDupChildren ds)"
  by (induction cs) auto

lemma noDupChildren_update:
  "noDupChildren cs \<Longrightarrow> noDupNames v \<Longrightarrow> noDupChildren (AList.update k v cs)"
  by (induction cs) auto

lemma noDupChildren_map_of:
  "noDupChildren cs \<Longrightarrow> map_of cs k = Some c \<Longrightarrow> noDupNames c"
  by (induction cs) (auto split: if_splits)

lemma noDupNames_sel: "noDupNames d = (distinct (Kustomizations d) \<and> noDupChildren (Children d))"
  by (cases d) simp

lemma noDupNames_registerAt:
  "noDupNames d \<Longrightarrow> noDupNames (registerAt ps b d)"
proof (induction ps arbitrary: d)
  case Nil
  then show ?case by (auto simp: noDupNames_sel slices_Contains_set)
next
  case (Cons p ps)
  show ?case
  proof (cases "map_of (Children d) p")
    case None
    then show ?thesis using Cons.IH[of "DirNode [] []"] Cons.prems
      by (simp add: noDupNames_sel noDupChildren_append)
  next
    case (Some c)
    then have "noDupNames c" using Cons.prems noDupChildren_map_of by (auto simp: noDupNames_sel)
    then show ?thesis using Cons.IH[of c] Cons.prems Some
      by (simp add: noDupNames_sel noDupChildren_update)
  qed
qed

text \<open>Every node keeps its list, except that the terminal node may get the basename appended.\<close>

lemma registerAt_lists:
  "descend qs d = Some n \<Longrightarrow>
   \<exists>n'. descend qs (registerAt ps b d) = Some n' \<and>
        Kustomizations n' = (if qs = ps \<and> b \<notin> set (Kustomizations n) then Kustomizations n @ [b] else Kustomizations n)"
proof (induction ps arbitrary: qs d n)
  case Nil
  then show ?case by (cases qs) (auto simp: slices_Contains_set split: option.splits)
next
  case (Cons p ps)
  show ?case
  proof (cases qs)
    case Nil
    then show ?thesis using Cons.prems by (auto split: option.splits)
  next
    case (Cons q qs')
    then obtain c where c: "map_of (Children d) q = Some c" and dc: "descend qs' c = Some n"
      using Cons.prems by (auto split: option.splits)
    show ?thesis
    proof (cases "q = p")
      case True
      then show ?thesis using Cons.IH[OF dc] c Cons by (auto simp: update_conv')
    next
      case False
      then show ?thesis using c dc Cons
        by (cases "map_of (Children d) p") (auto simp: update_conv' map_of_snoc_new simp del: map_of_append)
    qed
  qed
qed

lemma registerAt_present:
  "descend ps d = Some n \<Longrightarrow> b \<in> set (Kustomizations n) \<Longrightarrow> registerAt ps b d = d"
proof (induction ps arbitrary: d)
  case Nil
  then show ?case by (simp add: slices_Contains_set)
next
  case (Cons p ps)
  then obtain c where c: "map_of (Children d) p = Some c" and dc: "descend ps c = Some n"
    by (auto split: option.splits)
  have "registerAt ps b c = c" using Cons.IH[OF dc Cons.prems(2)] .
  then show ?case using c by (cases d) (simp add: update_triv)
qed

lemma registerAt_fresh:
  "descend ps d = None \<Longrightarrow> \<exists>n'. descend ps (registerAt ps b d) = Some n' \<and> Kustomizations n' = [b]"
proof (induction ps arbitrary: d)
  case Nil then show ?case by simp
next
  case (Cons p ps)
  show ?case
  proof (cases "map_of (Children d) p")
    case None
    have "\<exists>n'. descend ps (registerAt ps b (DirNode [] [])) = Some n' \<and> Kustomizations n' = [b]"
    proof (cases "descend ps (DirNode [] [])")
      case None then show ?thesis using Cons.IH by blast
    next
      case (Some m)
      then have "ps = [] \<and> m = DirNode [] []" by (cases ps) auto
      then show ?thesis by simp
    qed
    then show ?thesis using None by (simp add: map_of_snoc_new del: map_of_append)
  next
    case (Some c)
    then show ?thesis using Cons.IH[of c] Cons.prems by (simp add: update_conv')
  qed
qed

lemma descend_empty_node: "descend qs (DirNode [] []) = Some m \<Longrightarrow> qs = [] \<and> m = DirNode [] []"
  by (cases qs) auto

lemma registerAt_origin:
  "descend qs (registerAt ps b d) = Some m \<Longrightarrow> b' \<in> set (Kustomizations m) \<Longrightarrow>
   (\<exists>m0. descend qs d = Some m0 \<and> b' \<in> set (Kustomizations m0)) \<or> (qs = ps \<and> b' = b)"
proof (induction ps arbitrary: qs d m)
  case Nil
  then show ?case by (cases qs) (auto simp: slices_Contains_set split: if_splits)
next
  case (Cons p ps)
  show ?case
  proof (cases qs)
    case Nil
    then show ?thesis using Cons.prems by (auto split: option.splits)
  next
    case (Cons q qs')
    show ?thesis
    proof (cases "q = p")
      case False
      then have "map_of (Children (registerAt (p # ps) b d)) q = map_of (Children d) q"
        by (cases "map_of (Children d) p")
           (auto simp: update_conv' map_of_snoc_new simp del: map_of_append)
      then show ?thesis using Cons.prems Cons by (auto split: option.splits)
    next
      case True
      show ?thesis
      proof (cases "map_of (Children d) p")
        case None
        then have "descend qs' (registerAt ps b (DirNode [] [])) = Some m"
          using Cons.prems(1) Cons True
          by (auto simp: map_of_snoc_new simp del: map_of_append)
        from Cons.IH[OF this Cons.prems(2)]
        show ?thesis
        proof
          assume "\<exists>m0. descend qs' (DirNode [] []) = Some m0 \<and> b' \<in> set (Kustomizations m0)"
          then show ?thesis using descend_empty_node by fastforce
        next
          assume "qs' = ps \<and> b' = b"
          then show ?thesis using Cons True by simp
        qed
      next
        case (Some c)
        then have "descend qs' (registerAt ps b c) = Some m"
          using Cons.prems(1) Cons True by (auto simp: update_conv')
        from Cons.IH[OF this Cons.prems(2)]
        show ?thesis using Some Cons True by auto
      qed
    qed
  qed
qed

lemma listedAt_appendToDirTree:
  "listedAt (snd (appendToDirTree rel root)) ps b \<Longrightarrow>
   listedAt root ps b \<or> (ps = parentDirs rel \<and> b = filepath_Base rel)"
  using registerAt_origin[of ps "parentDirs rel" "filepath_Base rel" root _ b]
  by (auto simp: listedAt_def appendToDirTree_def split: option.splits)

section \<open>What the loops leave unchanged\<close>

lemma onlyLogs_refl: "onlyLogs s s"
  by (simp add: onlyLogs_def)

lemma onlyLogs_trans: "onlyLogs s t \<Longrightarrow> onlyLogs t u \<Longrightarrow> onlyLogs s u"
  by (auto simp: onlyLogs_def)

lemma onlyLogs_Debugf: "onlyLogs s (Debugf m s)"
  by (simp add: onlyLogs_def Debugf_def)

lemma onlyLogs_Warnf: "onlyLogs s (Warnf m s)"
  by (simp add: onlyLogs_def Warnf_def)

lemma onlyLogs_eq: "onlyLogs s t \<Longrightarrow> t = s\<lparr>logs := logs t\<rparr>"
  by (simp add: onlyLogs_def)

lemma onlyLogs_fold:
  assumes "\<And>x s. onlyLogs s (f x s)"
  shows "onlyLogs s (fold f xs s)"
proof (induction xs arbitrary: s)
  case Nil then show ?case by (simp add: onlyLogs_refl)
next
  case (Cons x xs)
  show ?case using onlyLogs_trans[OF assms[of s x] Cons.IH[of "f x s"]] by simp
qed

lemma onlyLogs_fold_snd:
  assumes "\<And>x a. onlyLogs (snd a) (snd (f x a))"
  shows "onlyLogs (snd a) (snd (fold f xs a))"
proof (induction xs arbitrary: a)
  case Nil then show ?case by (simp add: onlyLogs_refl)
next
  case (Cons x xs)
  show ?case using onlyLogs_trans[OF assms[of a x] Cons.IH[of "f x a"]] by simp
qed

lemma onlyLogs_resourceStep: "onlyLogs (snd a) (snd (resourceStep env dir v a))"
  using onlyLogs_trans[OF onlyLogs_Debugf onlyLogs_Debugf] onlyLogs_Debugf
  by (simp add: resourceStep_def Let_def)

lemma onlyLogs_componentStep: "onlyLogs (snd a) (snd (componentStep env dir v a))"
  using onlyLogs_trans[OF onlyLogs_Debugf onlyLogs_Warnf] onlyLogs_Debugf
  by (simp add: componentStep_def Let_def)

lemma onlyLogs_checkStep: "onlyLogs s (checkStep env dir what v s)"
  using onlyLogs_trans[OF onlyLogs_Debugf onlyLogs_Warnf] onlyLogs_Debugf
  by (simp add: checkStep_def Let_def)

lemma onlyLogs_collectNextDirs: "onlyLogs st (snd (collectNextDirs env dir k st))"
proof -
  let ?a = "fold (resourceStep env dir) (Resources k) ([], st)"
  have 1: "onlyLogs st (snd ?a)"
    using onlyLogs_fold_snd[of "resourceStep env dir" "([], st)" "Resources k"] onlyLogs_resourceStep by simp
  have 2: "onlyLogs (snd ?a) (snd (fold (componentStep env dir) (Components k) ?a))"
    using onlyLogs_fold_snd[of "componentStep env dir"] onlyLogs_componentStep by simp
  show ?thesis unfolding collectNextDirs_def using onlyLogs_trans[OF 1 2] .
qed

lemma onlyLogs_checkFiles: "onlyLogs st (checkFiles env dir k st)"
  unfolding checkFiles_def
  by (intro onlyLogs_trans[OF _ onlyLogs_fold] onlyLogs_fold onlyLogs_checkStep)

text \<open>Which children are collected.\<close>

lemma fst_fold_resourceStep:
  "fst (fold (resourceStep env dir) vs a)
   = fst a @ filter (\<lambda>p. Exists (fs env) p \<and> IsDir (fs env) p) (map (\<lambda>v. filepath_Join [dir, v]) vs)"
  by (induction vs arbitrary: a) (auto simp: resourceStep_def Let_def)

lemma fst_fold_componentStep:
  "fst (fold (componentStep env dir) vs a)
   = fst a @ filter (\<lambda>p. Exists (fs env) p \<and> IsDir (fs env) p) (map (\<lambda>v. filepath_Join [dir, v]) vs)"
  by (induction vs arbitrary: a) (auto simp: componentStep_def Let_def)

lemma fst_collectNextDirs:
  "fst (collectNextDirs env dir k st)
   = filter (\<lambda>p. Exists (fs env) p \<and> IsDir (fs env) p)
       (map (\<lambda>v. filepath_Join [dir, v]) (Resources k @ Components k))"
  by (simp add: collectNextDirs_def fst_fold_resourceStep fst_fold_componentStep)

lemma onlyLogs_logs_mono: "onlyLogs s t \<Longrightarrow> set (logs s) \<subseteq> set (logs t)"
  by (auto simp: onlyLogs_def)

lemma edges_recordEdge:
  "edges (recordEdge a b st) =
     (if \<lparr>Src = a, Dst = b\<rparr> \<in> set (edges st) then edges st
      else edges st @ [\<lparr>Src = a, Dst = b\<rparr>])"
  by (simp add: recordEdge_def Debugf_def Contains_set Let_def)

lemma rootDir_recordEdge: "rootDir (recordEdge a b st) = rootDir st"
  by (simp add: recordEdge_def Debugf_def Let_def)

section \<open>Invariants of the traversal\<close>

text \<open>The loop that records the edges keeps an invariant of the state.\<close>

lemma addEdges_invariant:
  assumes lg: "\<And>s l. P s \<Longrightarrow> P (s\<lparr>logs := logs s @ l\<rparr>)"
      and ed: "\<And>s c nd. P s \<Longrightarrow> c \<in> set cs \<Longrightarrow> Rel env (topDir env) c = Inr nd \<Longrightarrow>
                 \<lparr>Src = rel, Dst = nd\<rparr> \<notin> set (edges s) \<Longrightarrow>
                 P (s\<lparr>edges := edges s @ [\<lparr>Src = rel, Dst = nd\<rparr>]\<rparr>)"
  shows "P st \<Longrightarrow> P (snd (addEdges env rel cs st))"
  using ed
proof (induction cs arbitrary: st)
  case Nil then show ?case by simp
next
  case (Cons c cs)
  show ?case
  proof (cases "Rel env (topDir env) c")
    case (Inl e) then show ?thesis using Cons.prems(1) by simp
  next
    case (Inr nd)
    have p2: "P (recordEdge rel nd st)"
      using lg[OF Cons.prems(1)] Cons.prems(2)[OF lg[OF Cons.prems(1)] _ Inr]
      by (simp add: recordEdge_def Debugf_def Contains_set Let_def)
    have "P (snd (addEdges env rel cs (recordEdge rel nd st)))"
      by (rule Cons.IH[OF p2]) (use Cons.prems(2) in auto)
    then show ?thesis using Inr by simp
  qed
qed

lemma recurseInto_invariant:
  assumes "\<And>d s r. P s \<Longrightarrow> d \<in> set ds \<Longrightarrow> f d s = Some r \<Longrightarrow> P (snd r)"
  shows "P st \<Longrightarrow> recurseInto f ds st = Some st' \<Longrightarrow> P st'"
  using assms
proof (induction ds arbitrary: st)
  case Nil then show ?case by simp
next
  case (Cons d ds)
  then obtain r where r: "f d st = Some r" and rest: "recurseInto f ds (snd r) = Some st'"
    by (auto split: option.splits)
  have "P (snd r)" using Cons.prems(3)[OF Cons.prems(1) _ r] by simp
  then show ?case using Cons.IH[OF _ rest] Cons.prems(3) by auto
qed

text \<open>One call of \<open>readDir\<close>, with the prefix of the body folded into \<open>afterChecks\<close>.\<close>

lemma readDir_Suc:
  "readDir (Suc n) env dir st =
     (case readKustomizationFile env dir of
        Inl err \<Rightarrow> Some (Some err, Debugf (''----- '' @ dir @ '' -----'') st)
      | Inr k \<Rightarrow>
          (case Rel env (topDir env) dir of
             Inl err \<Rightarrow> Some (Some err, Debugf (''----- '' @ dir @ '' -----'') st)
           | Inr rel \<Rightarrow>
               (case fst (addEdges env rel (nextDirsOf env dir k) (afterChecks env dir k rel st)) of
                  Some err \<Rightarrow>
                    Some (Some err, snd (addEdges env rel (nextDirsOf env dir k) (afterChecks env dir k rel st)))
                | None \<Rightarrow>
                    (case recurseInto (readDir n env) (nextDirsOf env dir k)
                            (snd (addEdges env rel (nextDirsOf env dir k) (afterChecks env dir k rel st))) of
                       None \<Rightarrow> None
                     | Some st4 \<Rightarrow> Some (None, st4)))))"
proof -
  have r: "rootDir (Debugf (''----- '' @ dir @ '' -----'') st) = rootDir st"
    by (simp add: Debugf_def)
  show ?thesis
    unfolding readDir.simps Let_def afterChecks_def enter_def nextDirsOf_def fst_collectNextDirs r
    by (simp add: appendToDirTree_def split: sum.splits)
qed

declare readDir.simps(2) [simp del]

lemma onlyLogs_enter:
  "onlyLogs (st\<lparr>rootDir := snd (appendToDirTree rel (rootDir st))\<rparr>) (enter dir rel st)"
  by (simp add: onlyLogs_def enter_def Debugf_def)

lemma onlyLogs_afterChecks:
  "onlyLogs (st\<lparr>rootDir := snd (appendToDirTree rel (rootDir st))\<rparr>) (afterChecks env dir k rel st)"
  unfolding afterChecks_def
  using onlyLogs_trans onlyLogs_enter onlyLogs_collectNextDirs onlyLogs_checkFiles by blast

text \<open>
  An invariant of the state is kept by every call of \<open>readDir\<close> if it is kept by
  further log entries, by the registration of an overlay whose configuration was read,
  and by a new edge from such an overlay to one of the children collected for it.
\<close>

lemma readDir_invariant:
  assumes lg: "\<And>s l. P s \<Longrightarrow> P (s\<lparr>logs := logs s @ l\<rparr>)"
      and tr: "\<And>s d k rel. P s \<Longrightarrow> readKustomizationFile env d = Inr k \<Longrightarrow>
                 Rel env (topDir env) d = Inr rel \<Longrightarrow>
                 P (s\<lparr>rootDir := snd (appendToDirTree rel (rootDir s))\<rparr>)"
      and ed: "\<And>s d k c rel nd. P s \<Longrightarrow> readKustomizationFile env d = Inr k \<Longrightarrow>
                 c \<in> set (nextDirsOf env d k) \<Longrightarrow>
                 Rel env (topDir env) d = Inr rel \<Longrightarrow>
                 Rel env (topDir env) c = Inr nd \<Longrightarrow>
                 \<lparr>Src = rel, Dst = nd\<rparr> \<notin> set (edges s) \<Longrightarrow>
                 P (s\<lparr>edges := edges s @ [\<lparr>Src = rel, Dst = nd\<rparr>]\<rparr>)"
  shows "P st \<Longrightarrow> readDir n env dir st = Some r \<Longrightarrow> P (snd r)"
proof (induction n arbitrary: dir st r)
  case 0 then show ?case by simp
next
  case (Suc n)
  have p0: "P (Debugf (''----- '' @ dir @ '' -----'') st)"
    using lg[OF Suc.prems(1)] by (simp add: Debugf_def)
  show ?case
  proof (cases "readKustomizationFile env dir")
    case (Inl e) then show ?thesis using Suc.prems(2) p0 by (auto simp: readDir_Suc)
  next
    case (Inr k)
    show ?thesis
    proof (cases "Rel env (topDir env) dir")
      case (Inl e) then show ?thesis using Suc.prems(2) p0 Inr by (auto simp: readDir_Suc)
    next
      case rel: (Inr rel)
      let ?st1 = "st\<lparr>rootDir := snd (appendToDirTree rel (rootDir st))\<rparr>"
      let ?st2 = "afterChecks env dir k rel st"
      let ?e = "addEdges env rel (nextDirsOf env dir k) ?st2"
      have p1: "P ?st1"
        using tr[OF Suc.prems(1) Inr rel] .
      obtain l where l: "logs ?st2 = logs ?st1 @ l"
        using onlyLogs_afterChecks[where st=st and rel=rel and env=env and dir=dir and k=k]
        by (auto simp: onlyLogs_def)
      have "?st2 = ?st1\<lparr>logs := logs ?st1 @ l\<rparr>"
        using onlyLogs_eq[OF onlyLogs_afterChecks[where st=st and rel=rel and env=env and dir=dir and k=k]] l
        by simp
      then have p2: "P ?st2"
        using lg[OF p1, of l] by simp
      have p3: "P (snd ?e)"
      proof (rule addEdges_invariant[of P, OF lg _ p2])
        fix s c nd
        assume "P s" "c \<in> set (nextDirsOf env dir k)" "Rel env (topDir env) c = Inr nd"
          "\<lparr>Src = rel, Dst = nd\<rparr> \<notin> set (edges s)"
        then show "P (s\<lparr>edges := edges s @ [\<lparr>Src = rel, Dst = nd\<rparr>]\<rparr>)"
          using ed[of s dir k c rel nd] rel Inr by simp
      qed
      show ?thesis
      proof (cases "fst ?e")
        case (Some err)
        then have "r = (Some err, snd ?e)" using Suc.prems(2) Inr rel
          by (simp add: readDir_Suc)
        then show ?thesis using p3 by simp
      next
        case None
        then obtain st4 where rec: "recurseInto (readDir n env) (nextDirsOf env dir k) (snd ?e) = Some st4"
          and r: "r = (None, st4)"
          using Suc.prems(2) Inr rel
          by (auto simp: readDir_Suc split: option.splits)
        have "P st4"
          by (rule recurseInto_invariant[of P, OF _ p3 rec]) (use Suc.IH in blast)
        then show ?thesis using r by simp
      qed
    qed
  qed
qed

lemma readRoots_invariant:
  assumes "\<And>dir s r. P s \<Longrightarrow> readDir n env dir s = Some r \<Longrightarrow> P (snd r)"
  shows "P st \<Longrightarrow> readRoots n env dirs st = Some r \<Longrightarrow> P (snd r)"
proof (induction dirs arbitrary: st)
  case Nil then show ?case by auto
next
  case (Cons d ds)
  then obtain r1 where r1: "readDir n env d st = Some r1" by (auto split: option.splits)
  have p1: "P (snd r1)" using assms[OF Cons.prems(1) r1] .
  show ?case
  proof (cases "fst r1")
    case None
    then show ?thesis using Cons.IH[OF p1] Cons.prems(2) r1 by simp
  next
    case (Some e)
    then show ?thesis using p1 Cons.prems(2) r1 by auto
  qed
qed

lemma main_final:
  "main n env = Some out \<Longrightarrow>
   \<exists>r. readRoots n env (findKustomizationDirs (fs env) (topDir env)) init_state = Some r \<and> final out = snd r"
  by (auto simp: main_def split: option.splits)

lemma main_invariant:
  assumes "\<And>dir s r. P s \<Longrightarrow> readDir n env dir s = Some r \<Longrightarrow> P (snd r)"
    and "P init_state" and "main n env = Some out"
  shows "P (final out)"
proof -
  obtain r where r: "readRoots n env (findKustomizationDirs (fs env) (topDir env)) init_state = Some r"
    and f: "final out = snd r" using main_final[OF assms(3)] by blast
  have "P (snd r)"
    by (rule readRoots_invariant[where P=P, OF _ assms(2) r]) (rule assms(1))
  then show ?thesis using f by simp
qed

section \<open>The example run\<close>

lemma demo_main_runs: "main 3 demoEnv \<noteq> None"
  by code_simp

lemma demo_main_edges:
  "map_option (\<lambda>out. edges (final out)) (main 3 demoEnv)
   = Some [\<lparr>Src = ''comp'', Dst = ''base''\<rparr>, \<lparr>Src = ''overlay'', Dst = ''base''\<rparr>,
           \<lparr>Src = ''overlay'', Dst = ''comp''\<rparr>]"
  by code_simp

lemma demo_configs:
  "readKustomizationFile demoEnv ''base'' = Inr (refs [] [])"
  "readKustomizationFile demoEnv ''comp'' = Inr (refs [''../base''] [])"
  "readKustomizationFile demoEnv ''overlay'' =
     Inr \<lparr>Resources = [''../base'', ''../base'', ''deployment.yaml'', ''missing.yaml''],
          Components = [''../comp'', ''../gone''],
          Patches = [\<lparr>PatchPath = ''nopatch.yaml''\<rparr>], Replacements = [],
          Transformers = [], Configurations = []\<rparr>"
  by code_simp+


lemma demo_overlay_paths:
  "filepath_Join [''overlay'', ''../base''] = ''base''"
  "filepath_Join [''overlay'', ''deployment.yaml''] = ''overlay/deployment.yaml''"
  "filepath_Join [''overlay'', ''missing.yaml''] = ''overlay/missing.yaml''"
  "filepath_Join [''overlay'', ''../comp''] = ''comp''"
  "filepath_Join [''overlay'', ''../gone''] = ''gone''"
  by code_simp+

lemma demo_fs_facts:
  "Exists (fs demoEnv) ''base''" "IsDir (fs demoEnv) ''base''"
  "Exists (fs demoEnv) ''overlay/deployment.yaml''" "\<not> IsDir (fs demoEnv) ''overlay/deployment.yaml''"
  "\<not> Exists (fs demoEnv) ''overlay/missing.yaml''"
  "\<not> Exists (fs demoEnv) ''gone''"
  "Rel demoEnv (topDir demoEnv) ''overlay'' = Inr ''overlay''"
  "Rel demoEnv (topDir demoEnv) ''base'' = Inr ''base''"
  by code_simp+

lemma demo_overlay_run:
  "map_option fst (readDir 3 demoEnv ''overlay'' init_state) = Some None"
  by code_simp

lemma demo_overlay_result: "readDir 3 demoEnv ''overlay'' init_state \<noteq> None"
  by code_simp


section \<open>The edge collection\<close>

lemma readDir_distinct:
  "distinct (edges st) \<Longrightarrow> readDir n env dir st = Some r \<Longrightarrow> distinct (edges (snd r))"
  by (rule readDir_invariant[where P="\<lambda>s. distinct (edges s)"]) simp_all

lemma main_distinct: "main n env = Some out \<Longrightarrow> distinct (edges (final out))"
  by (rule main_invariant[where P="\<lambda>s. distinct (edges s)"])
     (auto simp: init_state_def intro: readDir_distinct)

lemma addEdges_twice:
  "edges (snd (addEdges env rel [c, c] st)) = edges (snd (addEdges env rel [c] st))"
  by (cases "Rel env (topDir env) c") (simp_all add: edges_recordEdge)

text \<open>
  Claim C1. The edge collection never holds the same (source, destination) pair twice:
  every call of \<open>readDir\<close> keeps the list of edges free of duplicates, and so does every
  run of \<open>main\<close>; recording an edge that is present leaves the collection as it is,
  recording an absent one appends it; an edge and its reverse are different and both
  are kept; a child listed twice by one overlay gives the edges of listing it once.
\<close>

theorem edges_never_duplicated:
  "(\<forall>st r. distinct (edges st) \<and> readDir fuel env dir st = Some r \<longrightarrow> distinct (edges (snd r)))
   \<and> (\<forall>out. main fuel env = Some out \<longrightarrow> distinct (edges (final out)))
   \<and> (\<forall>st. \<lparr>Src = a, Dst = b\<rparr> \<in> set (edges st) \<longrightarrow> edges (recordEdge a b st) = edges st)
   \<and> (\<forall>st. \<lparr>Src = a, Dst = b\<rparr> \<notin> set (edges st) \<longrightarrow>
          edges (recordEdge a b st) = edges st @ [\<lparr>Src = a, Dst = b\<rparr>])
   \<and> (a \<noteq> b \<longrightarrow>
        edges (recordEdge b a (recordEdge a b init_state))
          = [\<lparr>Src = a, Dst = b\<rparr>, \<lparr>Src = b, Dst = a\<rparr>])
   \<and> (\<forall>st c. edges (snd (addEdges env rel [c, c] st)) = edges (snd (addEdges env rel [c] st)))"
proof (intro conjI allI impI)
  fix st r assume "distinct (edges st) \<and> readDir fuel env dir st = Some r"
  then show "distinct (edges (snd r))" using readDir_distinct by blast
next
  fix out assume "main fuel env = Some out"
  then show "distinct (edges (final out))" by (rule main_distinct)
next
  fix st :: state assume "\<lparr>Src = a, Dst = b\<rparr> \<in> set (edges st)"
  then show "edges (recordEdge a b st) = edges st" by (simp add: edges_recordEdge)
next
  fix st :: state assume "\<lparr>Src = a, Dst = b\<rparr> \<notin> set (edges st)"
  then show "edges (recordEdge a b st) = edges st @ [\<lparr>Src = a, Dst = b\<rparr>]"
    by (simp add: edges_recordEdge)
next
  assume "a \<noteq> b"
  then show "edges (recordEdge b a (recordEdge a b init_state))
          = [\<lparr>Src = a, Dst = b\<rparr>, \<lparr>Src = b, Dst = a\<rparr>]"
    by (simp add: edges_recordEdge init_state_def)
next
  fix st c show "edges (snd (addEdges env rel [c, c] st)) = edges (snd (addEdges env rel [c] st))"
    by (rule addEdges_twice)
qed

theorem edges_never_duplicated_witness:
  "main 3 demoEnv \<noteq> None
   \<and> distinct (edges (final (the (main 3 demoEnv))))
   \<and> edges (final (the (main 3 demoEnv)))
       = [\<lparr>Src = ''comp'', Dst = ''base''\<rparr>, \<lparr>Src = ''overlay'', Dst = ''base''\<rparr>,
          \<lparr>Src = ''overlay'', Dst = ''comp''\<rparr>]
   \<and> edges (recordEdge ''overlay'' ''base'' (final (the (main 3 demoEnv))))
       = edges (final (the (main 3 demoEnv)))
   \<and> edges (recordEdge ''base'' ''overlay'' (final (the (main 3 demoEnv))))
       = edges (final (the (main 3 demoEnv))) @ [\<lparr>Src = ''base'', Dst = ''overlay''\<rparr>]
   \<and> edges (recordEdge ''base'' ''overlay'' (recordEdge ''overlay'' ''base'' init_state))
       = [\<lparr>Src = ''overlay'', Dst = ''base''\<rparr>, \<lparr>Src = ''base'', Dst = ''overlay''\<rparr>]"
proof -
  note t = edges_never_duplicated[of 3 demoEnv "''overlay''" "''overlay''" "''base''" "''overlay''"]
  note u = edges_never_duplicated[of 3 demoEnv "''overlay''" "''base''" "''overlay''" "''overlay''"]
  obtain out where o: "main 3 demoEnv = Some out" using demo_main_runs by blast
  have es: "edges (final out)
       = [\<lparr>Src = ''comp'', Dst = ''base''\<rparr>, \<lparr>Src = ''overlay'', Dst = ''base''\<rparr>,
          \<lparr>Src = ''overlay'', Dst = ''comp''\<rparr>]"
    using demo_main_edges unfolding o by simp
  have 1: "distinct (edges (final out))"
    using t[THEN conjunct2, THEN conjunct1, rule_format, OF o] .
  have m: "\<lparr>Src = ''overlay'', Dst = ''base''\<rparr> \<in> set (edges (final out))"
    unfolding es by simp
  have 2: "edges (recordEdge ''overlay'' ''base'' (final out)) = edges (final out)"
    using t[THEN conjunct2, THEN conjunct2, THEN conjunct1, rule_format, OF m] .
  have nm: "\<lparr>Src = ''base'', Dst = ''overlay''\<rparr> \<notin> set (edges (final out))"
    unfolding es by simp
  have 3: "edges (recordEdge ''base'' ''overlay'' (final out))
             = edges (final out) @ [\<lparr>Src = ''base'', Dst = ''overlay''\<rparr>]"
    using u[THEN conjunct2, THEN conjunct2, THEN conjunct2, THEN conjunct1, rule_format, OF nm] .
  have ne: "''overlay'' \<noteq> ''base''" by simp
  have 4: "edges (recordEdge ''base'' ''overlay'' (recordEdge ''overlay'' ''base'' init_state))
       = [\<lparr>Src = ''overlay'', Dst = ''base''\<rparr>, \<lparr>Src = ''base'', Dst = ''overlay''\<rparr>]"
    using t[THEN conjunct2, THEN conjunct2, THEN conjunct2, THEN conjunct2, THEN conjunct1,
            rule_format, OF ne] .
  have th: "the (main 3 demoEnv) = out" unfolding o by simp
  show ?thesis unfolding th using demo_main_runs 1 es 2 3 4 by (intro conjI)
qed

section \<open>Errors of the children\<close>

text \<open>
  Claim C2, at an input where it fails. The child \<open>nocfg\<close> of \<open>overlay\<close> has no
  configuration file: \<open>readDir\<close> on the child returns the error, the call for the parent
  drops it, and the run ends with exit status 0 and the graph.
\<close>

theorem child_read_error_is_dropped:
  "readKustomizationFile brokenChildEnv ''nocfg''
     = Inl (Error ''open nocfg/kustomization.yaml: no such file or directory'')
   \<and> map_option fst (readDir 1 brokenChildEnv ''nocfg'' init_state)
     = Some (Some (Error ''open nocfg/kustomization.yaml: no such file or directory''))
   \<and> map_option fst (readDir 2 brokenChildEnv ''overlay'' init_state) = Some None
   \<and> findKustomizationDirs (fs brokenChildEnv) (topDir brokenChildEnv) = [''overlay'']
   \<and> map_option exitCode (main 2 brokenChildEnv) = Some 0
   \<and> map_option stdout (main 2 brokenChildEnv) = map_option render (map_option final (main 2 brokenChildEnv))
   \<and> map_option edges (map_option final (main 2 brokenChildEnv))
     = Some [\<lparr>Src = ''overlay'', Dst = ''nocfg''\<rparr>]"
  by code_simp

section \<open>Children and edges\<close>

lemma addEdges_edges_mono:
  "set (edges st) \<subseteq> set (edges (snd (addEdges env rel cs st)))"
proof (induction cs arbitrary: st)
  case Nil then show ?case by simp
next
  case (Cons c cs)
  show ?case
  proof (cases "Rel env (topDir env) c")
    case (Inl e) then show ?thesis by simp
  next
    case (Inr nd)
    have "set (edges st) \<subseteq> set (edges (recordEdge rel nd st))"
      by (auto simp: edges_recordEdge)
    then show ?thesis using Cons.IH[of "recordEdge rel nd st"] Inr by auto
  qed
qed

lemma addEdges_all_recorded:
  "fst (addEdges env rel cs st) = None \<Longrightarrow> c \<in> set cs \<Longrightarrow>
   \<exists>nd. Rel env (topDir env) c = Inr nd
       \<and> \<lparr>Src = rel, Dst = nd\<rparr> \<in> set (edges (snd (addEdges env rel cs st)))"
proof (induction cs arbitrary: st)
  case Nil then show ?case by simp
next
  case (Cons x cs)
  show ?case
  proof (cases "Rel env (topDir env) x")
    case (Inl e) then show ?thesis using Cons.prems by simp
  next
    case (Inr nd)
    have none: "fst (addEdges env rel cs (recordEdge rel nd st)) = None"
      using Cons.prems(1) Inr by simp
    show ?thesis
    proof (cases "c = x")
      case True
      have "\<lparr>Src = rel, Dst = nd\<rparr> \<in> set (edges (recordEdge rel nd st))"
        by (simp add: edges_recordEdge)
      then have "\<lparr>Src = rel, Dst = nd\<rparr> \<in> set (edges (snd (addEdges env rel cs (recordEdge rel nd st))))"
        using addEdges_edges_mono by blast
      then show ?thesis using Inr True by simp
    next
      case False
      then have "c \<in> set cs" using Cons.prems(2) by simp
      then show ?thesis using Cons.IH[OF none] Inr by simp
    qed
  qed
qed

lemma readDir_edges_mono:
  "readDir n env dir st = Some r \<Longrightarrow> set (edges st) \<subseteq> set (edges (snd r))"
  by (rule readDir_invariant[where P="\<lambda>s. set (edges st) \<subseteq> set (edges s)" and st=st])
     auto

lemma recurseInto_edges_mono:
  assumes "recurseInto (readDir n env) ds st = Some st'"
  shows "set (edges st) \<subseteq> set (edges st')"
proof (rule recurseInto_invariant[where P="\<lambda>s. set (edges st) \<subseteq> set (edges s)"
                                    and f="readDir n env" and st=st, OF _ _ assms])
  fix d s r assume "set (edges st) \<subseteq> set (edges s)" "readDir n env d s = Some r"
  then show "set (edges st) \<subseteq> set (edges (snd r))" using readDir_edges_mono by blast
qed simp

lemma readDir_children_recorded:
  assumes k: "readKustomizationFile env dir = Inr k"
      and rel: "Rel env (topDir env) dir = Inr rel"
      and run: "readDir n env dir st = Some (None, st')"
      and c: "c \<in> set (nextDirsOf env dir k)"
  shows "\<exists>nd. Rel env (topDir env) c = Inr nd \<and> \<lparr>Src = rel, Dst = nd\<rparr> \<in> set (edges st')"
proof (cases n)
  case 0 then show ?thesis using run by simp
next
  case (Suc m)
  let ?e = "addEdges env rel (nextDirsOf env dir k) (afterChecks env dir k rel st)"
  have none: "fst ?e = None"
    using run k rel unfolding Suc by (auto simp: readDir_Suc split: option.splits)
  then have rec: "recurseInto (readDir m env) (nextDirsOf env dir k) (snd ?e) = Some st'"
    using run k rel unfolding Suc by (auto simp: readDir_Suc split: option.splits)
  obtain nd where nd: "Rel env (topDir env) c = Inr nd"
    and mem: "\<lparr>Src = rel, Dst = nd\<rparr> \<in> set (edges (snd ?e))"
    using addEdges_all_recorded[OF none c] by blast
  show ?thesis using nd mem recurseInto_edges_mono[OF rec] by blast
qed

lemma readDir_edges_origin:
  "readDir n env dir st = Some r \<Longrightarrow> e \<in> set (edges (snd r)) \<Longrightarrow>
   e \<in> set (edges st) \<or> fromRef env e"
proof -
  assume run: "readDir n env dir st = Some r" and e: "e \<in> set (edges (snd r))"
  have "\<forall>e\<in>set (edges (snd r)). e \<in> set (edges st) \<or> fromRef env e"
  proof (rule readDir_invariant[where P="\<lambda>s. \<forall>e\<in>set (edges s). e \<in> set (edges st) \<or> fromRef env e"
                                   and st=st, OF _ _ _ _ run])
    fix s d k c rel nd
    assume P: "\<forall>e\<in>set (edges s). e \<in> set (edges st) \<or> fromRef env e"
      and k: "readKustomizationFile env d = Inr k" and c: "c \<in> set (nextDirsOf env d k)"
      and rel: "Rel env (topDir env) d = Inr rel" and nd: "Rel env (topDir env) c = Inr nd"
    from c obtain v where v: "v \<in> set (Resources k @ Components k)" and cv: "c = filepath_Join [d, v]"
      and ex: "Exists (fs env) c" "IsDir (fs env) c"
      by (auto simp: nextDirsOf_def)
    have "fromRef env \<lparr>Src = rel, Dst = nd\<rparr>"
      unfolding fromRef_def using k v ex rel nd cv by auto
    then show "\<forall>e\<in>set (edges (s\<lparr>edges := edges s @ [\<lparr>Src = rel, Dst = nd\<rparr>]\<rparr>)).
                 e \<in> set (edges st) \<or> fromRef env e"
      using P by auto
  qed auto
  then show ?thesis using e by blast
qed

lemma readDir_tree_origin:
  "readDir n env dir st = Some r \<Longrightarrow> listedAt (rootDir (snd r)) ps b \<Longrightarrow>
   listedAt (rootDir st) ps b
   \<or> (\<exists>d k rel. readKustomizationFile env d = Inr k \<and> Rel env (topDir env) d = Inr rel
         \<and> ps = parentDirs rel \<and> b = filepath_Base rel)"
proof -
  let ?Q = "\<lambda>ps b. \<exists>d k rel. readKustomizationFile env d = Inr k \<and> Rel env (topDir env) d = Inr rel
         \<and> ps = parentDirs rel \<and> b = filepath_Base rel"
  assume run: "readDir n env dir st = Some r" and l: "listedAt (rootDir (snd r)) ps b"
  have "\<forall>ps b. listedAt (rootDir (snd r)) ps b \<longrightarrow> listedAt (rootDir st) ps b \<or> ?Q ps b"
  proof (rule readDir_invariant[where P="\<lambda>s. \<forall>ps b. listedAt (rootDir s) ps b \<longrightarrow> listedAt (rootDir st) ps b \<or> ?Q ps b"
                                   and st=st, OF _ _ _ _ run])
    fix s d k rel
    assume P: "\<forall>ps b. listedAt (rootDir s) ps b \<longrightarrow> listedAt (rootDir st) ps b \<or> ?Q ps b"
      and k: "readKustomizationFile env d = Inr k" and rel: "Rel env (topDir env) d = Inr rel"
    show "\<forall>ps b. listedAt (rootDir (s\<lparr>rootDir := snd (appendToDirTree rel (rootDir s))\<rparr>)) ps b
            \<longrightarrow> listedAt (rootDir st) ps b \<or> ?Q ps b"
    proof (intro allI impI)
      fix ps b assume "listedAt (rootDir (s\<lparr>rootDir := snd (appendToDirTree rel (rootDir s))\<rparr>)) ps b"
      then have "listedAt (rootDir s) ps b \<or> (ps = parentDirs rel \<and> b = filepath_Base rel)"
        using listedAt_appendToDirTree by simp
      then show "listedAt (rootDir st) ps b \<or> ?Q ps b" using P k rel by blast
    qed
  qed auto
  then show ?thesis using l by blast
qed

text \<open>
  Claim C3. An entry of the resources or components list gives a traversal child if and
  only if the entry, joined to the directory of the overlay, names an existing
  directory; when the call for the overlay returns without error, each such child has
  its edge from the identifier of the overlay in the edge collection; and a call of
  \<open>readDir\<close> adds no other edges and tree entries: every new edge comes from an entry
  that names an existing directory, every new tree entry is the identifier of a
  directory whose configuration was read.
\<close>

theorem child_iff_existing_directory:
  "(\<forall>p. p \<in> set (fst (collectNextDirs env dir k st)) \<longleftrightarrow>
        (\<exists>v. v \<in> set (Resources k @ Components k) \<and> p = filepath_Join [dir, v]
            \<and> Exists (fs env) p \<and> IsDir (fs env) p))
   \<and> (\<forall>rel st'. readKustomizationFile env dir = Inr k \<and> Rel env (topDir env) dir = Inr rel
          \<and> readDir n env dir st = Some (None, st') \<longrightarrow>
        (\<forall>v. v \<in> set (Resources k @ Components k)
            \<and> Exists (fs env) (filepath_Join [dir, v]) \<and> IsDir (fs env) (filepath_Join [dir, v])
            \<longrightarrow> (\<exists>nd. Rel env (topDir env) (filepath_Join [dir, v]) = Inr nd
                     \<and> \<lparr>Src = rel, Dst = nd\<rparr> \<in> set (edges st'))))
   \<and> (\<forall>r e. readDir n env dir st = Some r \<and> e \<in> set (edges (snd r))
          \<longrightarrow> e \<in> set (edges st) \<or> fromRef env e)
   \<and> (\<forall>r ps b. readDir n env dir st = Some r \<and> listedAt (rootDir (snd r)) ps b
          \<longrightarrow> listedAt (rootDir st) ps b
              \<or> (\<exists>d k' rel. readKustomizationFile env d = Inr k'
                    \<and> Rel env (topDir env) d = Inr rel
                    \<and> ps = parentDirs rel \<and> b = filepath_Base rel))"
proof (intro conjI allI impI)
  fix p
  show "p \<in> set (fst (collectNextDirs env dir k st)) \<longleftrightarrow>
        (\<exists>v. v \<in> set (Resources k @ Components k) \<and> p = filepath_Join [dir, v]
            \<and> Exists (fs env) p \<and> IsDir (fs env) p)"
    unfolding fst_collectNextDirs by auto
next
  fix rel st' v
  assume a: "readKustomizationFile env dir = Inr k \<and> Rel env (topDir env) dir = Inr rel
          \<and> readDir n env dir st = Some (None, st')"
    and v: "v \<in> set (Resources k @ Components k)
            \<and> Exists (fs env) (filepath_Join [dir, v]) \<and> IsDir (fs env) (filepath_Join [dir, v])"
  have "filepath_Join [dir, v] \<in> set (nextDirsOf env dir k)"
    using v unfolding nextDirsOf_def by auto
  then show "\<exists>nd. Rel env (topDir env) (filepath_Join [dir, v]) = Inr nd
                     \<and> \<lparr>Src = rel, Dst = nd\<rparr> \<in> set (edges st')"
    using readDir_children_recorded[of env dir k rel n st st'] a by blast
next
  fix r e assume "readDir n env dir st = Some r \<and> e \<in> set (edges (snd r))"
  then show "e \<in> set (edges st) \<or> fromRef env e" using readDir_edges_origin by blast
next
  fix r ps b assume "readDir n env dir st = Some r \<and> listedAt (rootDir (snd r)) ps b"
  then show "listedAt (rootDir st) ps b
              \<or> (\<exists>d k' rel. readKustomizationFile env d = Inr k'
                    \<and> Rel env (topDir env) d = Inr rel
                    \<and> ps = parentDirs rel \<and> b = filepath_Base rel)"
    using readDir_tree_origin[of n env dir st r ps b] by blast
qed

theorem child_iff_existing_directory_witness:
  "\<exists>k st'. readKustomizationFile demoEnv ''overlay'' = Inr k
     \<and> ''../base'' \<in> set (Resources k) \<and> ''deployment.yaml'' \<in> set (Resources k)
     \<and> ''missing.yaml'' \<in> set (Resources k)
     \<and> ''base'' \<in> set (fst (collectNextDirs demoEnv ''overlay'' k init_state))
     \<and> ''overlay/deployment.yaml'' \<notin> set (fst (collectNextDirs demoEnv ''overlay'' k init_state))
     \<and> ''overlay/missing.yaml'' \<notin> set (fst (collectNextDirs demoEnv ''overlay'' k init_state))
     \<and> readDir 3 demoEnv ''overlay'' init_state = Some (None, st')
     \<and> \<lparr>Src = ''overlay'', Dst = ''base''\<rparr> \<in> set (edges st')"
proof -
  let ?k = "\<lparr>Resources = [''../base'', ''../base'', ''deployment.yaml'', ''missing.yaml''],
          Components = [''../comp'', ''../gone''],
          Patches = [\<lparr>PatchPath = ''nopatch.yaml''\<rparr>], Replacements = [],
          Transformers = [], Configurations = []\<rparr>"
  note t = child_iff_existing_directory[of demoEnv "''overlay''" ?k init_state 3]
  have k: "readKustomizationFile demoEnv ''overlay'' = Inr ?k" by (rule demo_configs(3))
  have 1: "''base'' \<in> set (fst (collectNextDirs demoEnv ''overlay'' ?k init_state))"
  proof -
    have "\<exists>v. v \<in> set (Resources ?k @ Components ?k) \<and> ''base'' = filepath_Join [''overlay'', v]
            \<and> Exists (fs demoEnv) ''base'' \<and> IsDir (fs demoEnv) ''base''"
      using demo_overlay_paths(1) demo_fs_facts(1,2) by (intro exI[of _ "''../base''"]) simp
    then show ?thesis using t[THEN conjunct1, rule_format, of "''base''"] by blast
  qed
  have 2: "''overlay/deployment.yaml'' \<notin> set (fst (collectNextDirs demoEnv ''overlay'' ?k init_state))"
    using t[THEN conjunct1, rule_format, of "''overlay/deployment.yaml''"] demo_fs_facts(4) by blast
  have 3: "''overlay/missing.yaml'' \<notin> set (fst (collectNextDirs demoEnv ''overlay'' ?k init_state))"
    using t[THEN conjunct1, rule_format, of "''overlay/missing.yaml''"] demo_fs_facts(5) by blast
  obtain r where r: "readDir 3 demoEnv ''overlay'' init_state = Some r" and fr: "fst r = None"
    using demo_overlay_run by (cases "readDir 3 demoEnv ''overlay'' init_state") auto
  then have run: "readDir 3 demoEnv ''overlay'' init_state = Some (None, snd r)"
    by (cases r) simp
  have pre: "readKustomizationFile demoEnv ''overlay'' = Inr ?k
       \<and> Rel demoEnv (topDir demoEnv) ''overlay'' = Inr ''overlay''
       \<and> readDir 3 demoEnv ''overlay'' init_state = Some (None, snd r)"
    using k demo_fs_facts(7) run by simp
  have v: "''../base'' \<in> set (Resources ?k @ Components ?k)
       \<and> Exists (fs demoEnv) (filepath_Join [''overlay'', ''../base''])
       \<and> IsDir (fs demoEnv) (filepath_Join [''overlay'', ''../base''])"
    unfolding demo_overlay_paths using demo_fs_facts(1,2) by simp
  have "\<exists>nd. Rel demoEnv (topDir demoEnv) (filepath_Join [''overlay'', ''../base'']) = Inr nd
           \<and> \<lparr>Src = ''overlay'', Dst = nd\<rparr> \<in> set (edges (snd r))"
    using t[THEN conjunct2, THEN conjunct1, rule_format, OF pre v] .
  then have 4: "\<lparr>Src = ''overlay'', Dst = ''base''\<rparr> \<in> set (edges (snd r))"
    unfolding demo_overlay_paths demo_fs_facts(8) by auto
  have m: "''../base'' \<in> set (Resources ?k) \<and> ''deployment.yaml'' \<in> set (Resources ?k)
     \<and> ''missing.yaml'' \<in> set (Resources ?k)" by simp
  show ?thesis
    using k m 1 2 3 run 4 by (intro exI[of _ ?k] exI[of _ "snd r"]) blast
qed

section \<open>Diagnostics for missing paths\<close>

lemma fold_componentStep_warns:
  "v \<in> set vs \<Longrightarrow> \<not> Exists (fs env) (filepath_Join [dir, v]) \<Longrightarrow>
   (WarnLevel, filepath_Join [dir, v] @ '' is not found'')
     \<in> set (logs (snd (fold (componentStep env dir) vs a)))"
proof (induction vs arbitrary: a)
  case Nil then show ?case by simp
next
  case (Cons x vs)
  show ?case
  proof (cases "x = v")
    case True
    have "(WarnLevel, filepath_Join [dir, v] @ '' is not found'')
            \<in> set (logs (snd (componentStep env dir v a)))"
      using Cons.prems(2) by (simp add: componentStep_def Let_def Warnf_def Debugf_def)
    moreover have "set (logs (snd (componentStep env dir v a)))
            \<subseteq> set (logs (snd (fold (componentStep env dir) vs (componentStep env dir v a))))"
      by (rule onlyLogs_logs_mono[OF onlyLogs_fold_snd]) (rule onlyLogs_componentStep)
    ultimately show ?thesis using True by auto
  next
    case False
    then show ?thesis using Cons by simp
  qed
qed

lemma fold_resourceStep_debugs:
  "v \<in> set vs \<Longrightarrow> \<not> Exists (fs env) (filepath_Join [dir, v]) \<Longrightarrow>
   (DebugLevel, ''/* '' @ filepath_Join [dir, v] @ '' is not found */'')
     \<in> set (logs (snd (fold (resourceStep env dir) vs a)))"
proof (induction vs arbitrary: a)
  case Nil then show ?case by simp
next
  case (Cons x vs)
  show ?case
  proof (cases "x = v")
    case True
    have "(DebugLevel, ''/* '' @ filepath_Join [dir, v] @ '' is not found */'')
            \<in> set (logs (snd (resourceStep env dir v a)))"
      using Cons.prems(2) by (simp add: resourceStep_def Let_def Debugf_def)
    moreover have "set (logs (snd (resourceStep env dir v a)))
            \<subseteq> set (logs (snd (fold (resourceStep env dir) vs (resourceStep env dir v a))))"
      by (rule onlyLogs_logs_mono[OF onlyLogs_fold_snd]) (rule onlyLogs_resourceStep)
    ultimately show ?thesis using True by auto
  next
    case False
    then show ?thesis using Cons by simp
  qed
qed

lemma fold_resourceStep_only_debug:
  "\<exists>l. logs (snd (fold (resourceStep env dir) vs a)) = logs (snd a) @ l
       \<and> (\<forall>e\<in>set l. fst e = DebugLevel)"
proof (induction vs arbitrary: a)
  case Nil then show ?case by simp
next
  case (Cons x vs)
  have "\<exists>l. logs (snd (resourceStep env dir x a)) = logs (snd a) @ l \<and> (\<forall>e\<in>set l. fst e = DebugLevel)"
    by (simp add: resourceStep_def Let_def Debugf_def)
  then obtain l1 where l1: "logs (snd (resourceStep env dir x a)) = logs (snd a) @ l1"
    "\<forall>e\<in>set l1. fst e = DebugLevel" by blast
  obtain l2 where l2: "logs (snd (fold (resourceStep env dir) vs (resourceStep env dir x a)))
      = logs (snd (resourceStep env dir x a)) @ l2" "\<forall>e\<in>set l2. fst e = DebugLevel"
    using Cons.IH[of "resourceStep env dir x a"] by blast
  have "logs (snd (fold (resourceStep env dir) (x # vs) a)) = logs (snd a) @ (l1 @ l2)"
    using l1 l2 by simp
  moreover have "\<forall>e\<in>set (l1 @ l2). fst e = DebugLevel" using l1 l2 by auto
  ultimately show ?case by blast
qed

lemma collectNextDirs_logs:
  "(v \<in> set (Components k) \<and> \<not> Exists (fs env) (filepath_Join [dir, v]) \<longrightarrow>
      (WarnLevel, filepath_Join [dir, v] @ '' is not found'')
        \<in> set (logs (snd (collectNextDirs env dir k s))))
   \<and> (v \<in> set (Resources k) \<and> \<not> Exists (fs env) (filepath_Join [dir, v]) \<longrightarrow>
      (DebugLevel, ''/* '' @ filepath_Join [dir, v] @ '' is not found */'')
        \<in> set (logs (snd (collectNextDirs env dir k s))))"
proof (intro conjI impI)
  assume "v \<in> set (Components k) \<and> \<not> Exists (fs env) (filepath_Join [dir, v])"
  then show "(WarnLevel, filepath_Join [dir, v] @ '' is not found'')
        \<in> set (logs (snd (collectNextDirs env dir k s)))"
    unfolding collectNextDirs_def using fold_componentStep_warns by blast
next
  assume a: "v \<in> set (Resources k) \<and> \<not> Exists (fs env) (filepath_Join [dir, v])"
  have "(DebugLevel, ''/* '' @ filepath_Join [dir, v] @ '' is not found */'')
        \<in> set (logs (snd (fold (resourceStep env dir) (Resources k) ([], s))))"
    using a fold_resourceStep_debugs by blast
  moreover have "set (logs (snd (fold (resourceStep env dir) (Resources k) ([], s))))
      \<subseteq> set (logs (snd (collectNextDirs env dir k s)))"
    unfolding collectNextDirs_def
    by (rule onlyLogs_logs_mono[OF onlyLogs_fold_snd]) (rule onlyLogs_componentStep)
  ultimately show "(DebugLevel, ''/* '' @ filepath_Join [dir, v] @ '' is not found */'')
        \<in> set (logs (snd (collectNextDirs env dir k s)))" by blast
qed

lemma addEdges_logs_mono: "set (logs st) \<subseteq> set (logs (snd (addEdges env rel cs st)))"
  by (rule addEdges_invariant[where P="\<lambda>s. set (logs st) \<subseteq> set (logs s)"]) auto

lemma readDir_logs_mono:
  "readDir n env dir st = Some r \<Longrightarrow> set (logs st) \<subseteq> set (logs (snd r))"
  by (rule readDir_invariant[where P="\<lambda>s. set (logs st) \<subseteq> set (logs s)" and st=st])
     auto

lemma recurseInto_logs_mono:
  assumes "recurseInto (readDir n env) ds st = Some st'"
  shows "set (logs st) \<subseteq> set (logs st')"
proof (rule recurseInto_invariant[where P="\<lambda>s. set (logs st) \<subseteq> set (logs s)"
                                    and f="readDir n env" and st=st, OF _ _ assms])
  fix d s r assume "set (logs st) \<subseteq> set (logs s)" "readDir n env d s = Some r"
  then show "set (logs st) \<subseteq> set (logs (snd r))" using readDir_logs_mono by blast
qed simp

lemma addEdges_error:
  "fst (addEdges env rel cs st) = Some err \<Longrightarrow> \<exists>c\<in>set cs. Rel env (topDir env) c = Inl err"
proof (induction cs arbitrary: st)
  case Nil then show ?case by simp
next
  case (Cons c cs)
  then show ?case by (cases "Rel env (topDir env) c") auto
qed

lemma readDir_after_config:
  assumes k: "readKustomizationFile env dir = Inr k"
      and rel: "Rel env (topDir env) dir = Inr rel"
      and run: "readDir n env dir st = Some r"
  shows "set (logs (snd (collectNextDirs env dir k (enter dir rel st)))) \<subseteq> set (logs (snd r))
       \<and> (\<forall>err. fst r = Some err \<longrightarrow> (\<exists>c\<in>set (nextDirsOf env dir k). Rel env (topDir env) c = Inl err))"
proof (cases n)
  case 0 then show ?thesis using run by simp
next
  case (Suc m)
  let ?c = "snd (collectNextDirs env dir k (enter dir rel st))"
  let ?e = "addEdges env rel (nextDirsOf env dir k) (afterChecks env dir k rel st)"
  have 1: "set (logs ?c) \<subseteq> set (logs (afterChecks env dir k rel st))"
    unfolding afterChecks_def by (rule onlyLogs_logs_mono[OF onlyLogs_checkFiles])
  have 2: "set (logs (afterChecks env dir k rel st)) \<subseteq> set (logs (snd ?e))"
    by (rule addEdges_logs_mono)
  show ?thesis
  proof (cases "fst ?e")
    case (Some err)
    then have "r = (Some err, snd ?e)" using run k rel unfolding Suc by (simp add: readDir_Suc)
    then show ?thesis using 1 2 addEdges_error[OF Some] by auto
  next
    case None
    then obtain st4 where rec: "recurseInto (readDir m env) (nextDirsOf env dir k) (snd ?e) = Some st4"
      and r: "r = (None, st4)"
      using run k rel unfolding Suc by (auto simp: readDir_Suc split: option.splits)
    show ?thesis using 1 2 recurseInto_logs_mono[OF rec] r by auto
  qed
qed

text \<open>
  Claim C4, as stated, fails: a missing resource is logged at debug severity only, so
  the run of \<open>missingResourceEnv\<close> records no warning and shows nothing at the default
  verbosity.
\<close>

theorem missing_resource_not_warned:
  "readKustomizationFile missingResourceEnv ''overlay'' = Inr (refs [''missing.yaml''] [])
   \<and> \<not> Exists (fs missingResourceEnv) (filepath_Join [''overlay'', ''missing.yaml''])
   \<and> loglevel missingResourceEnv = ''info''
   \<and> map_option exitCode (main 1 missingResourceEnv) = Some 0
   \<and> map_option warnings (map_option final (main 1 missingResourceEnv)) = Some []
   \<and> map_option (emitted missingResourceEnv) (map_option final (main 1 missingResourceEnv)) = Some []
   \<and> map_option logs (map_option final (main 1 missingResourceEnv))
       = Some [(DebugLevel, ''----- overlay -----''),
               (DebugLevel, ''- (resource) missing.yaml''),
               (DebugLevel, ''/* overlay/missing.yaml is not found */'')]"
  by code_simp

text \<open>
  Claim C4, amended. When the configuration of an overlay has been read and the call of
  \<open>readDir\<close> returns: a component path that does not exist has its entry at warning
  severity in the log, which the logger passes on at every verbosity; a resource path
  that does not exist has an entry at debug severity, passed on only at debug
  verbosity, and the loop over the resources logs at debug severity only; and the call
  returns an error only if \<open>filepath.Rel\<close> fails on a child, never because of a missing
  path.
\<close>

theorem missing_reference_diagnostics:
  assumes "readKustomizationFile env dir = Inr k"
    and "Rel env (topDir env) dir = Inr rel"
    and "readDir n env dir st = Some r"
  shows "(\<forall>v\<in>set (Components k). \<not> Exists (fs env) (filepath_Join [dir, v]) \<longrightarrow>
            (WarnLevel, filepath_Join [dir, v] @ '' is not found'') \<in> set (logs (snd r))
            \<and> surfaced (loglevel env) (WarnLevel, filepath_Join [dir, v] @ '' is not found''))
       \<and> (\<forall>v\<in>set (Resources k). \<not> Exists (fs env) (filepath_Join [dir, v]) \<longrightarrow>
            (DebugLevel, ''/* '' @ filepath_Join [dir, v] @ '' is not found */'') \<in> set (logs (snd r))
            \<and> (surfaced (loglevel env) (DebugLevel, ''/* '' @ filepath_Join [dir, v] @ '' is not found */'')
                 \<longleftrightarrow> loglevel env = ''debug''))
       \<and> (\<forall>s. \<exists>l. logs (snd (fold (resourceStep env dir) (Resources k) ([], s))) = logs s @ l
               \<and> (\<forall>e\<in>set l. fst e = DebugLevel))
       \<and> (\<forall>err. fst r = Some err \<longrightarrow>
             (\<exists>c\<in>set (nextDirsOf env dir k). Rel env (topDir env) c = Inl err))"
proof -
  note a = readDir_after_config[OF assms]
  have 1: "\<forall>v\<in>set (Components k). \<not> Exists (fs env) (filepath_Join [dir, v]) \<longrightarrow>
            (WarnLevel, filepath_Join [dir, v] @ '' is not found'') \<in> set (logs (snd r))
            \<and> surfaced (loglevel env) (WarnLevel, filepath_Join [dir, v] @ '' is not found'')"
    using a[THEN conjunct1] collectNextDirs_logs[of _ k env dir "enter dir rel st", THEN conjunct1]
    by (auto simp: surfaced_def)
  have 2: "\<forall>v\<in>set (Resources k). \<not> Exists (fs env) (filepath_Join [dir, v]) \<longrightarrow>
            (DebugLevel, ''/* '' @ filepath_Join [dir, v] @ '' is not found */'') \<in> set (logs (snd r))
            \<and> (surfaced (loglevel env) (DebugLevel, ''/* '' @ filepath_Join [dir, v] @ '' is not found */'')
                 \<longleftrightarrow> loglevel env = ''debug'')"
    using a[THEN conjunct1] collectNextDirs_logs[of _ k env dir "enter dir rel st", THEN conjunct2]
    by (auto simp: surfaced_def)
  have 3: "\<forall>s. \<exists>l. logs (snd (fold (resourceStep env dir) (Resources k) ([], s))) = logs s @ l
               \<and> (\<forall>e\<in>set l. fst e = DebugLevel)"
  proof
    fix s
    show "\<exists>l. logs (snd (fold (resourceStep env dir) (Resources k) ([], s))) = logs s @ l
               \<and> (\<forall>e\<in>set l. fst e = DebugLevel)"
      using fold_resourceStep_only_debug[of env dir "Resources k" "([], s)"] by simp
  qed
  show ?thesis using 1 2 3 a[THEN conjunct2] by (intro conjI)
qed

theorem missing_reference_diagnostics_witness:
  "\<exists>k r. readKustomizationFile demoEnv ''overlay'' = Inr k
     \<and> Rel demoEnv (topDir demoEnv) ''overlay'' = Inr ''overlay''
     \<and> readDir 3 demoEnv ''overlay'' init_state = Some r
     \<and> ''../gone'' \<in> set (Components k) \<and> \<not> Exists (fs demoEnv) ''gone''
     \<and> (WarnLevel, ''gone is not found'') \<in> set (logs (snd r))
     \<and> ''missing.yaml'' \<in> set (Resources k) \<and> \<not> Exists (fs demoEnv) ''overlay/missing.yaml''
     \<and> (DebugLevel, ''/* overlay/missing.yaml is not found */'') \<in> set (logs (snd r))
     \<and> fst r = None"
proof -
  let ?k = "\<lparr>Resources = [''../base'', ''../base'', ''deployment.yaml'', ''missing.yaml''],
          Components = [''../comp'', ''../gone''],
          Patches = [\<lparr>PatchPath = ''nopatch.yaml''\<rparr>], Replacements = [],
          Transformers = [], Configurations = []\<rparr>"
  have k: "readKustomizationFile demoEnv ''overlay'' = Inr ?k" by (rule demo_configs(3))
  have rel: "Rel demoEnv (topDir demoEnv) ''overlay'' = Inr ''overlay''" by (rule demo_fs_facts(7))
  obtain r where r: "readDir 3 demoEnv ''overlay'' init_state = Some r"
    using demo_overlay_result by blast
  note t = missing_reference_diagnostics[OF k rel r]
  have c: "''../gone'' \<in> set (Components ?k)" by simp
  have g: "\<not> Exists (fs demoEnv) (filepath_Join [''overlay'', ''../gone''])"
    unfolding demo_overlay_paths by (rule demo_fs_facts(6))
  have 1: "(WarnLevel, ''gone is not found'') \<in> set (logs (snd r))"
    using t[THEN conjunct1, rule_format, OF c g, THEN conjunct1]
    unfolding demo_overlay_paths by simp
  have m: "''missing.yaml'' \<in> set (Resources ?k)" by simp
  have e: "\<not> Exists (fs demoEnv) (filepath_Join [''overlay'', ''missing.yaml''])"
    unfolding demo_overlay_paths by (rule demo_fs_facts(5))
  have 2: "(DebugLevel, ''/* overlay/missing.yaml is not found */'') \<in> set (logs (snd r))"
    using t[THEN conjunct2, THEN conjunct1, rule_format, OF m e, THEN conjunct1]
    unfolding demo_overlay_paths by simp
  have 3: "fst r = None"
    using demo_overlay_run unfolding r by simp
  show ?thesis
    using k rel r c demo_fs_facts(6) 1 m demo_fs_facts(5) 2 3
    by (intro exI[of _ ?k] exI[of _ r]) blast
qed

section \<open>The four lists of files\<close>

lemma onlyLogs_sameGraph: "onlyLogs s t \<Longrightarrow> sameGraph s t"
  by (simp add: onlyLogs_def sameGraph_def)

lemma sameGraph_sym: "sameGraph s t \<Longrightarrow> sameGraph t s"
  by (simp add: sameGraph_def)

lemma sameGraph_trans: "sameGraph s t \<Longrightarrow> sameGraph t u \<Longrightarrow> sameGraph s u"
  by (simp add: sameGraph_def)

lemma read_withoutFileChecks:
  "readKustomizationFile (withoutFileChecks env) dir =
     (case readKustomizationFile env dir of Inl e \<Rightarrow> Inl e | Inr k \<Rightarrow> Inr (withoutFileLists k))"
  by (simp add: readKustomizationFile_def withoutFileChecks_def split: sum.splits)

lemma nextDirsOf_withoutFileChecks:
  "nextDirsOf (withoutFileChecks env) dir (withoutFileLists k) = nextDirsOf env dir k"
  by (simp add: nextDirsOf_def withoutFileChecks_def withoutFileLists_def)

lemma sameGraph_afterChecks:
  assumes "sameGraph s t"
  shows "sameGraph (afterChecks env dir k rel s) (afterChecks env' dir' k' rel t)"
proof -
  have 1: "sameGraph (s\<lparr>rootDir := snd (appendToDirTree rel (rootDir s))\<rparr>) (afterChecks env dir k rel s)"
    using onlyLogs_afterChecks by (rule onlyLogs_sameGraph)
  have 2: "sameGraph (t\<lparr>rootDir := snd (appendToDirTree rel (rootDir t))\<rparr>) (afterChecks env' dir' k' rel t)"
    using onlyLogs_afterChecks by (rule onlyLogs_sameGraph)
  have 3: "sameGraph (s\<lparr>rootDir := snd (appendToDirTree rel (rootDir s))\<rparr>)
                     (t\<lparr>rootDir := snd (appendToDirTree rel (rootDir t))\<rparr>)"
    using assms by (simp add: sameGraph_def)
  show ?thesis
    using sameGraph_trans[OF sameGraph_sym[OF 1] sameGraph_trans[OF 3 2]] .
qed

lemma sameGraph_recordEdge:
  "sameGraph s t \<Longrightarrow> sameGraph (recordEdge a b s) (recordEdge a b t)"
  by (simp add: sameGraph_def edges_recordEdge rootDir_recordEdge)

lemma sameGraph_addEdges:
  assumes "Rel env' = Rel env" "topDir env' = topDir env"
  shows "sameGraph s t \<Longrightarrow>
         fst (addEdges env rel cs s) = fst (addEdges env' rel cs t)
         \<and> sameGraph (snd (addEdges env rel cs s)) (snd (addEdges env' rel cs t))"
proof (induction cs arbitrary: s t)
  case Nil then show ?case by simp
next
  case (Cons c cs)
  show ?case
  proof (cases "Rel env (topDir env) c")
    case (Inl e) then show ?thesis using Cons.prems assms by simp
  next
    case (Inr nd)
    then show ?thesis
      using Cons.IH[OF sameGraph_recordEdge[OF Cons.prems, of rel nd]] assms by simp
  qed
qed

lemma sameGraph_recurseInto:
  assumes "\<And>d s t. sameGraph s t \<Longrightarrow>
             rel_option (\<lambda>r r'. fst r = fst r' \<and> sameGraph (snd r) (snd r')) (f d s) (g d t)"
  shows "sameGraph s t \<Longrightarrow> rel_option sameGraph (recurseInto f ds s) (recurseInto g ds t)"
proof (induction ds arbitrary: s t)
  case Nil then show ?case by simp
next
  case (Cons d ds)
  show ?case
  proof (cases "f d s")
    case None
    then have "g d t = None" using assms[OF Cons.prems, of d] by (cases "g d t") auto
    then show ?thesis using None by simp
  next
    case (Some r)
    then obtain r' where r': "g d t = Some r'" and sg: "sameGraph (snd r) (snd r')"
      using assms[OF Cons.prems, of d] by (cases "g d t") auto
    show ?thesis using Cons.IH[OF sg] Some r' by simp
  qed
qed

lemma readDir_withoutFileChecks:
  "sameGraph s t \<Longrightarrow>
   rel_option (\<lambda>r r'. fst r = fst r' \<and> sameGraph (snd r) (snd r'))
     (readDir n env dir s) (readDir n (withoutFileChecks env) dir t)"
proof (induction n arbitrary: dir s t)
  case 0 then show ?case by simp
next
  case (Suc n)
  let ?env' = "withoutFileChecks env"
  have R: "Rel ?env' = Rel env" "topDir ?env' = topDir env"
    by (simp_all add: withoutFileChecks_def)
  have hdr: "sameGraph (Debugf m s) (Debugf m t)" for m
    using Suc.prems by (simp add: sameGraph_def Debugf_def)
  show ?case
  proof (cases "readKustomizationFile env dir")
    case (Inl e)
    then show ?thesis using hdr by (simp add: readDir_Suc read_withoutFileChecks)
  next
    case (Inr k)
    show ?thesis
    proof (cases "Rel env (topDir env) dir")
      case (Inl e)
      then show ?thesis using hdr Inr by (simp add: readDir_Suc read_withoutFileChecks R)
    next
      case rel: (Inr rel)
      let ?cs = "nextDirsOf env dir k"
      let ?a = "addEdges env rel ?cs (afterChecks env dir k rel s)"
      let ?b = "addEdges ?env' rel ?cs (afterChecks ?env' dir (withoutFileLists k) rel t)"
      have ab: "fst ?a = fst ?b \<and> sameGraph (snd ?a) (snd ?b)"
        by (rule sameGraph_addEdges[OF R sameGraph_afterChecks[OF Suc.prems]])
      have rec: "rel_option sameGraph (recurseInto (readDir n env) ?cs (snd ?a))
                    (recurseInto (readDir n ?env') ?cs (snd ?b))"
        by (rule sameGraph_recurseInto) (use Suc.IH ab in auto)
      have L: "readDir (Suc n) env dir s =
                 (case fst ?a of Some err \<Rightarrow> Some (Some err, snd ?a)
                  | None \<Rightarrow> (case recurseInto (readDir n env) ?cs (snd ?a) of
                               None \<Rightarrow> None | Some st4 \<Rightarrow> Some (None, st4)))"
        using Inr rel by (simp add: readDir_Suc)
      have Rr: "readDir (Suc n) ?env' dir t =
                 (case fst ?b of Some err \<Rightarrow> Some (Some err, snd ?b)
                  | None \<Rightarrow> (case recurseInto (readDir n ?env') ?cs (snd ?b) of
                               None \<Rightarrow> None | Some st4 \<Rightarrow> Some (None, st4)))"
        unfolding readDir_Suc read_withoutFileChecks Inr R rel
        unfolding sum.case nextDirsOf_withoutFileChecks ..
      show ?thesis
        unfolding L Rr using ab rec
        by (auto split: option.splits simp: option.rel_sel)
    qed
  qed
qed

lemma readRoots_withoutFileChecks:
  "sameGraph s t \<Longrightarrow>
   rel_option (\<lambda>r r'. fst r = fst r' \<and> sameGraph (snd r) (snd r'))
     (readRoots n env ds s) (readRoots n (withoutFileChecks env) ds t)"
proof (induction ds arbitrary: s t)
  case Nil then show ?case by simp
next
  case (Cons d ds)
  note sim = readDir_withoutFileChecks[OF Cons.prems, of n env d]
  show ?case
  proof (cases "readDir n env d s")
    case None
    then have "readDir n (withoutFileChecks env) d t = None"
      using sim by (cases "readDir n (withoutFileChecks env) d t") auto
    then show ?thesis using None by simp
  next
    case (Some r)
    then obtain r' where r': "readDir n (withoutFileChecks env) d t = Some r'"
      and eq: "fst r = fst r'" and sg: "sameGraph (snd r) (snd r')"
      using sim by (cases "readDir n (withoutFileChecks env) d t") auto
    show ?thesis
    proof (cases "fst r")
      case None
      then show ?thesis using Cons.IH[OF sg] Some r' eq by simp
    next
      case (Some e)
      then show ?thesis using \<open>readDir n env d s = Some r\<close> r' eq sg by simp
    qed
  qed
qed

lemma render_sameGraph: "sameGraph s t \<Longrightarrow> render s = render t"
  by (simp add: render_def sameGraph_def)

lemma main_withoutFileChecks:
  "rel_option (\<lambda>out out'. exitCode out = exitCode out' \<and> stdout out = stdout out'
                 \<and> sameGraph (final out) (final out'))
     (main n env) (main n (withoutFileChecks env))"
proof -
  let ?ds = "findKustomizationDirs (fs env) (topDir env)"
  have d: "findKustomizationDirs (fs (withoutFileChecks env)) (topDir (withoutFileChecks env)) = ?ds"
    by (simp add: withoutFileChecks_def)
  have i: "sameGraph init_state init_state" by (simp add: sameGraph_def)
  note sim = readRoots_withoutFileChecks[OF i, of n env ?ds]
  show ?thesis
  proof (cases "readRoots n env ?ds init_state")
    case None
    then have "readRoots n (withoutFileChecks env) ?ds init_state = None"
      using sim by (cases "readRoots n (withoutFileChecks env) ?ds init_state") auto
    then show ?thesis using None by (simp add: main_def d)
  next
    case (Some r)
    then obtain r' where r': "readRoots n (withoutFileChecks env) ?ds init_state = Some r'"
      and eq: "fst r = fst r'" and sg: "sameGraph (snd r) (snd r')"
      using sim by (cases "readRoots n (withoutFileChecks env) ?ds init_state") auto
    show ?thesis
    proof (cases "fst r'")
      case None
      then show ?thesis using Some r' eq sg render_sameGraph[OF sg] by (simp add: main_def d)
    next
      case (Some e)
      then show ?thesis using \<open>readRoots n env ?ds init_state = Some r\<close> r' eq sg
        by (simp add: main_def d)
    qed
  qed
qed

lemma demo_stripped_runs: "main 3 (withoutFileChecks demoEnv) \<noteq> None"
  by code_simp

lemma demo_logs_differ:
  "(WarnLevel, ''overlay/nopatch.yaml is not found'') \<in> set (logs (final (the (main 3 demoEnv))))
   \<and> (WarnLevel, ''overlay/nopatch.yaml is not found'')
        \<notin> set (logs (final (the (main 3 (withoutFileChecks demoEnv)))))"
  by code_simp

text \<open>
  Claim C5. The loops over patches, replacements, transformers and configurations add
  no edge and no child: with the four lists of every overlay emptied, \<open>readDir\<close> and
  \<open>main\<close> return in the same cases, with the same error, the same tree and the same
  edges (and the same document); the children collected for an overlay are the same,
  and the four loops leave the tree and the edges as they are.
\<close>

theorem file_lists_are_checks_only:
  "(sameGraph s t \<longrightarrow>
      (readDir n env dir s = None \<longleftrightarrow> readDir n (withoutFileChecks env) dir t = None)
      \<and> (\<forall>r r'. readDir n env dir s = Some r \<and> readDir n (withoutFileChecks env) dir t = Some r'
            \<longrightarrow> fst r = fst r' \<and> rootDir (snd r) = rootDir (snd r')
                \<and> edges (snd r) = edges (snd r')))
   \<and> fst (collectNextDirs env dir k s)
       = fst (collectNextDirs (withoutFileChecks env) dir (withoutFileLists k) t)
   \<and> rootDir (checkFiles env dir k s) = rootDir s
   \<and> edges (checkFiles env dir k s) = edges s
   \<and> (main n env = None \<longleftrightarrow> main n (withoutFileChecks env) = None)
   \<and> (\<forall>out out'. main n env = Some out \<and> main n (withoutFileChecks env) = Some out'
         \<longrightarrow> exitCode out = exitCode out' \<and> stdout out = stdout out'
             \<and> rootDir (final out) = rootDir (final out')
             \<and> edges (final out) = edges (final out'))"
proof -
  have 1: "sameGraph s t \<longrightarrow>
      (readDir n env dir s = None \<longleftrightarrow> readDir n (withoutFileChecks env) dir t = None)
      \<and> (\<forall>r r'. readDir n env dir s = Some r \<and> readDir n (withoutFileChecks env) dir t = Some r'
            \<longrightarrow> fst r = fst r' \<and> rootDir (snd r) = rootDir (snd r')
                \<and> edges (snd r) = edges (snd r'))"
  proof
    assume "sameGraph s t"
    from readDir_withoutFileChecks[OF this, of n env dir]
    show "(readDir n env dir s = None \<longleftrightarrow> readDir n (withoutFileChecks env) dir t = None)
      \<and> (\<forall>r r'. readDir n env dir s = Some r \<and> readDir n (withoutFileChecks env) dir t = Some r'
            \<longrightarrow> fst r = fst r' \<and> rootDir (snd r) = rootDir (snd r')
                \<and> edges (snd r) = edges (snd r'))"
      by (cases "readDir n env dir s"; cases "readDir n (withoutFileChecks env) dir t")
         (auto simp: sameGraph_def)
  qed
  have 2: "fst (collectNextDirs env dir k s)
       = fst (collectNextDirs (withoutFileChecks env) dir (withoutFileLists k) t)"
    by (simp add: fst_collectNextDirs withoutFileChecks_def withoutFileLists_def)
  have 3: "rootDir (checkFiles env dir k s) = rootDir s \<and> edges (checkFiles env dir k s) = edges s"
    using onlyLogs_checkFiles[of s env dir k] by (simp add: onlyLogs_def)
  have 4: "(main n env = None \<longleftrightarrow> main n (withoutFileChecks env) = None)
   \<and> (\<forall>out out'. main n env = Some out \<and> main n (withoutFileChecks env) = Some out'
         \<longrightarrow> exitCode out = exitCode out' \<and> stdout out = stdout out'
             \<and> rootDir (final out) = rootDir (final out')
             \<and> edges (final out) = edges (final out'))"
    using main_withoutFileChecks[of n env]
    by (cases "main n env"; cases "main n (withoutFileChecks env)") (auto simp: sameGraph_def)
  show ?thesis using 1 2 3 4 by (intro conjI) blast+
qed

theorem file_lists_are_checks_only_witness:
  "sameGraph init_state init_state
   \<and> main 3 demoEnv \<noteq> None
   \<and> main 3 (withoutFileChecks demoEnv) \<noteq> None
   \<and> exitCode (the (main 3 demoEnv)) = exitCode (the (main 3 (withoutFileChecks demoEnv)))
   \<and> stdout (the (main 3 demoEnv)) = stdout (the (main 3 (withoutFileChecks demoEnv)))
   \<and> rootDir (final (the (main 3 demoEnv))) = rootDir (final (the (main 3 (withoutFileChecks demoEnv))))
   \<and> edges (final (the (main 3 demoEnv))) = edges (final (the (main 3 (withoutFileChecks demoEnv))))
   \<and> (WarnLevel, ''overlay/nopatch.yaml is not found'') \<in> set (logs (final (the (main 3 demoEnv))))
   \<and> (WarnLevel, ''overlay/nopatch.yaml is not found'')
        \<notin> set (logs (final (the (main 3 (withoutFileChecks demoEnv)))))"
proof -
  have i: "sameGraph init_state init_state" by (simp add: sameGraph_def)
  obtain out where o: "main 3 demoEnv = Some out" using demo_main_runs by blast
  obtain out' where o': "main 3 (withoutFileChecks demoEnv) = Some out'"
    using demo_stripped_runs by blast
  note t = file_lists_are_checks_only[of init_state init_state 3 demoEnv "''overlay''" "refs [] []"]
  have oo: "main 3 demoEnv = Some out \<and> main 3 (withoutFileChecks demoEnv) = Some out'"
    using o o' by simp
  have e: "exitCode out = exitCode out' \<and> stdout out = stdout out'
             \<and> rootDir (final out) = rootDir (final out')
             \<and> edges (final out) = edges (final out')"
    using t[THEN conjunct2, THEN conjunct2, THEN conjunct2, THEN conjunct2, THEN conjunct2,
            rule_format, OF oo] .
  have th: "the (main 3 demoEnv) = out" "the (main 3 (withoutFileChecks demoEnv)) = out'"
    using o o' by simp_all
  show ?thesis
    using i demo_main_runs demo_stripped_runs e[unfolded th[symmetric]] demo_logs_differ
    by (intro conjI) blast+
qed

section \<open>Registering and descending\<close>

text \<open>
  Claim C6. Registering an identifier and then descending the tree round-trips: for the
  identifier with parent segments \<open>segs\<close> and basename \<open>b\<close> (the elements of a clean
  relative path, or the identifier \<open>.\<close> of the top directory itself), the node reached
  from the root by descending exactly \<open>segs\<close> lists \<open>b\<close> after the registration; with no
  parent segments the one descent step is the sentinel segment \<open>.\<close>.
\<close>

theorem register_descend_roundtrip:
  assumes "relElems (segs @ [b]) \<or> (segs = [] \<and> b = ''.'')"
  shows "\<exists>n. descend (if segs = [] then [''.''] else segs)
               (snd (appendToDirTree (strings_Join (segs @ [b]) ''/'') root)) = Some n
             \<and> b \<in> set (Kustomizations n)"
proof -
  let ?id = "strings_Join (segs @ [b]) ''/''"
  have "parentDirs ?id = (if segs = [] then [''.''] else segs) \<and> filepath_Base ?id = b"
    using assms
  proof
    assume "relElems (segs @ [b])"
    then show ?thesis using parentDirs_Join Base_Join by simp
  next
    assume "segs = [] \<and> b = ''.''"
    then show ?thesis using parentDirs_dot by simp
  qed
  then show ?thesis
    using descend_registerAt[of "parentDirs ?id" "filepath_Base ?id" root]
    by (simp add: appendToDirTree_def)
qed

theorem register_descend_roundtrip_witness:
  "relElems ([''a'', ''b''] @ [''c''])
   \<and> (\<exists>n. descend [''a'', ''b''] (snd (appendToDirTree ''a/b/c'' (DirNode [] []))) = Some n
          \<and> ''c'' \<in> set (Kustomizations n))
   \<and> relElems ([] @ [''base''])
   \<and> (\<exists>n. descend [''.''] (snd (appendToDirTree ''base'' (DirNode [] []))) = Some n
          \<and> ''base'' \<in> set (Kustomizations n))"
proof -
  have h1: "relElems ([''a'', ''b''] @ [''c''])" by (simp add: plainName_def)
  have h2: "relElems ([] @ [''base''])" by (simp add: plainName_def)
  show ?thesis
    using h1 h2
      register_descend_roundtrip[of "[''a'', ''b'']" "''c''" "DirNode [] []", OF disjI1[OF h1]]
      register_descend_roundtrip[of "[]" "''base''" "DirNode [] []", OF disjI1[OF h2]]
    by simp
qed

section \<open>The overlays lists\<close>

lemma readDir_noDup:
  "noDupNames (rootDir st) \<Longrightarrow> readDir n env dir st = Some r \<Longrightarrow> noDupNames (rootDir (snd r))"
  by (rule readDir_invariant[where P="\<lambda>s. noDupNames (rootDir s)"])
     (simp_all add: appendToDirTree_def noDupNames_registerAt)

lemma main_noDup: "main n env = Some out \<Longrightarrow> noDupNames (rootDir (final out))"
proof -
  assume "main n env = Some out"
  then obtain r where r: "readRoots n env (findKustomizationDirs (fs env) (topDir env)) init_state = Some r"
    and f: "final out = snd r" using main_final by blast
  have "noDupNames (rootDir (snd r))"
    by (rule readRoots_invariant[where P="\<lambda>s. noDupNames (rootDir s)", OF _ _ r])
       (auto simp: init_state_def intro: readDir_noDup)
  then show ?thesis using f by simp
qed

text \<open>
  Claim C7. No node of the tree lists a basename twice: a registration keeps that
  property, a registration of a basename that its terminal node lists already changes
  nothing, every node keeps its list except that the terminal node gets a new basename
  appended at the end (insertion order is discovery order), and the property holds along
  every traversal and in the final state of every run.
\<close>

theorem overlays_never_duplicated:
  "(noDupNames root \<longrightarrow> noDupNames (snd (appendToDirTree dir root)))
   \<and> (\<forall>n. descend (parentDirs dir) root = Some n \<and> filepath_Base dir \<in> set (Kustomizations n)
          \<longrightarrow> snd (appendToDirTree dir root) = root)
   \<and> (\<forall>qs n. descend qs root = Some n \<longrightarrow>
          (\<exists>n'. descend qs (snd (appendToDirTree dir root)) = Some n'
              \<and> Kustomizations n' =
                  (if qs = parentDirs dir \<and> filepath_Base dir \<notin> set (Kustomizations n)
                   then Kustomizations n @ [filepath_Base dir] else Kustomizations n)))
   \<and> (\<forall>st r. noDupNames (rootDir st) \<and> readDir fuel env d st = Some r
          \<longrightarrow> noDupNames (rootDir (snd r)))
   \<and> (\<forall>out. main fuel env = Some out \<longrightarrow> noDupNames (rootDir (final out)))"
proof (intro conjI allI impI)
  show "noDupNames (snd (appendToDirTree dir root))" if "noDupNames root"
    using that by (simp add: appendToDirTree_def noDupNames_registerAt)
next
  fix n assume "descend (parentDirs dir) root = Some n \<and> filepath_Base dir \<in> set (Kustomizations n)"
  then show "snd (appendToDirTree dir root) = root"
    by (simp add: appendToDirTree_def registerAt_present)
next
  fix qs n assume "descend qs root = Some n"
  then show "\<exists>n'. descend qs (snd (appendToDirTree dir root)) = Some n'
              \<and> Kustomizations n' =
                  (if qs = parentDirs dir \<and> filepath_Base dir \<notin> set (Kustomizations n)
                   then Kustomizations n @ [filepath_Base dir] else Kustomizations n)"
    using registerAt_lists[of qs root n "parentDirs dir" "filepath_Base dir"]
    by (simp add: appendToDirTree_def)
next
  fix st r assume "noDupNames (rootDir st) \<and> readDir fuel env d st = Some r"
  then show "noDupNames (rootDir (snd r))" using readDir_noDup by blast
next
  fix out assume "main fuel env = Some out"
  then show "noDupNames (rootDir (final out))" by (rule main_noDup)
qed

theorem overlays_never_duplicated_witness:
  "noDupNames (DirNode [] [(''.'', DirNode [''base''] [])])
   \<and> noDupNames (snd (appendToDirTree ''comp'' (DirNode [] [(''.'', DirNode [''base''] [])])))
   \<and> (\<exists>n'. descend [''.''] (snd (appendToDirTree ''comp'' (DirNode [] [(''.'', DirNode [''base''] [])])))
         = Some n' \<and> Kustomizations n' = [''base'', ''comp''])
   \<and> snd (appendToDirTree ''base'' (DirNode [] [(''.'', DirNode [''base''] [])]))
       = DirNode [] [(''.'', DirNode [''base''] [])]
   \<and> main 3 demoEnv \<noteq> None
   \<and> noDupNames (rootDir (final (the (main 3 demoEnv))))"
proof -
  let ?root = "DirNode [] [(''.'', DirNode [''base''] [])]"
  have w: "noDupNames ?root" by simp
  have d: "descend [''.''] ?root = Some (DirNode [''base''] [])" by simp
  have pc: "parentDirs ''comp'' = [''.'']" "filepath_Base ''comp'' = ''comp''"
    "parentDirs ''base'' = [''.'']" "filepath_Base ''base'' = ''base''"
    by code_simp+
  note t1 = overlays_never_duplicated[of ?root "''comp''" 3 demoEnv "''base''"]
  note t2 = overlays_never_duplicated[of ?root "''base''" 3 demoEnv "''base''"]
  have a: "noDupNames (snd (appendToDirTree ''comp'' ?root))"
    using t1[THEN conjunct1, rule_format, OF w] .
  have b: "\<exists>n'. descend [''.''] (snd (appendToDirTree ''comp'' ?root)) = Some n'
              \<and> Kustomizations n' = [''base'', ''comp'']"
    using t1[THEN conjunct2, THEN conjunct2, THEN conjunct1, rule_format, OF d]
    unfolding pc by simp
  have c0: "descend (parentDirs ''base'') ?root = Some (DirNode [''base''] [])
            \<and> filepath_Base ''base'' \<in> set (Kustomizations (DirNode [''base''] []))"
    unfolding pc by simp
  have c: "snd (appendToDirTree ''base'' ?root) = ?root"
    using t2[THEN conjunct2, THEN conjunct1, rule_format, OF c0] .
  obtain out where o: "main 3 demoEnv = Some out" using demo_main_runs by blast
  have "noDupNames (rootDir (final out))"
    using t1[THEN conjunct2, THEN conjunct2, THEN conjunct2, THEN conjunct2, rule_format, OF o] .
  then have e: "noDupNames (rootDir (final (the (main 3 demoEnv))))" unfolding o by simp
  from w a b c demo_main_runs e show ?thesis by (intro conjI)
qed

section \<open>Termination\<close>







section \<open>Rendering the graph\<close>




text \<open>
  Claim C9. Rendering is a total function of the traversal state: it returns a document
  for every state, the opening line first and the closing line last, and for the empty
  state nothing stands between the two.
\<close>

theorem render_empty_state:
  "render init_state = ''digraph G {'' @ nl @ ''}'' @ nl
   \<and> render init_state
       = [CHR ''d'', CHR ''i'', CHR ''g'', CHR ''r'', CHR ''a'', CHR ''p'', CHR ''h'', CHR '' '',
          CHR ''G'', CHR '' '', CHR ''{'', CHR 0x0A, CHR ''}'', CHR 0x0A]
   \<and> (\<forall>st. \<exists>body. render st = ''digraph G {'' @ nl @ body @ ''}'' @ nl)"
proof (intro conjI allI)
  show e: "render init_state = ''digraph G {'' @ nl @ ''}'' @ nl"
    by (simp add: render_def init_state_def printGraphEdges_def)
  show "render init_state
       = [CHR ''d'', CHR ''i'', CHR ''g'', CHR ''r'', CHR ''a'', CHR ''p'', CHR ''h'', CHR '' '',
          CHR ''G'', CHR '' '', CHR ''{'', CHR 0x0A, CHR ''}'', CHR 0x0A]"
    unfolding e by (simp add: nl_def)
  fix st
  have "render st = ''digraph G {'' @ nl
          @ (printGraphNodes (rootDir st) [] 1 @ printGraphEdges (edges st) 1) @ ''}'' @ nl"
    by (simp add: render_def)
  then show "\<exists>body. render st = ''digraph G {'' @ nl @ body @ ''}'' @ nl" by blast
qed



end
